theory Spec2Isabelle
  imports
    Complex_Main
    "HOL-Library.AList"
    "HOL-Library.Multiset"
    "HOL-Library.Sublist"
    "HOL-Library.Char_ord"
    "HOL-Library.List_Lexorder"
    "HOL-Library.Product_Lexorder"
begin

section \<open>Data model of fastcov.py\<close>

text \<open>
  fastcov keeps everything in Python dictionaries. A dictionary is modelled as an
  association list with distinct keys, in insertion order, as a Python dict is:
  \<open>k in d\<close> is \<open>map_of d k \<noteq> None\<close>, \<open>d[k] = v\<close> is \<open>AList.update k v d\<close> (the
  position of an existing key is kept, a new key goes to the end), \<open>del d[k]\<close> is
  \<open>AList.delete k d\<close> on a key that is present and \<open>KeyError\<close> on one that is not,
  \<open>d.items()\<close> is the list itself.

  The raw records are what \<open>json.loads\<close> gives for one line of gcov output. Every numeric
  field is read through \<open>int(...)\<close> in the source; the raw records below hold the integer
  that \<open>int\<close> returns.
\<close>

text \<open>
  The fields \<open>"functions"\<close>, \<open>"branches"\<close> and \<open>"lines"\<close> of a source's record are
  \<open>src_functions\<close>, \<open>src_branches\<close> and \<open>src_lines\<close> below.
\<close>

datatype error = KeyError | ZeroDivisionError | ValueError | OSError

record function_raw =
  name :: string
  raw_start_line :: int
  raw_execution_count :: int

record branch_raw =
  br_count :: int
  throw :: bool

record line_raw =
  line_number :: int
  line_count :: int
  raw_branches :: "branch_raw list"

record source_raw =
  file_abs :: string
  raw_functions :: "function_raw list"
  raw_lines :: "line_raw list"

record function_data =
  start_line :: int
  execution_count :: int

type_synonym functions_dict = "(string \<times> function_data) list"
type_synonym lines_dict = "(int \<times> int) list"
type_synonym branches_dict = "(int \<times> int list) list"

record source_data =
  src_functions :: functions_dict
  src_branches :: branches_dict
  src_lines :: lines_dict

type_synonym sources_dict = "(string \<times> source_data) list"

section \<open>Distillation\<close>

text \<open>\<open>distillFunction\<close> (lines 275-287).\<close>

definition distillFunction :: "function_raw \<Rightarrow> functions_dict \<Rightarrow> functions_dict" where
  "distillFunction function_raw functions_d =
     (let function_name = name function_raw;
          start_line_v = raw_start_line function_raw;
          execution_count_v = raw_execution_count function_raw
      in case map_of functions_d function_name of
           None \<Rightarrow>
             AList.update function_name
               \<lparr>start_line = start_line_v, execution_count = execution_count_v\<rparr> functions_d
         | Some fdata \<Rightarrow>
             AList.update function_name
               (fdata\<lparr>execution_count := execution_count fdata + execution_count_v\<rparr>)
               functions_d)"

text \<open>\<open>emptyBranchSet\<close>, \<open>matchingBranchSet\<close> (lines 289-293).\<close>

definition emptyBranchSet :: "branch_raw \<Rightarrow> branch_raw \<Rightarrow> bool" where
  "emptyBranchSet branch1 branch2 \<longleftrightarrow> br_count branch1 = 0 \<and> br_count branch2 = 0"

definition matchingBranchSet :: "branch_raw \<Rightarrow> branch_raw \<Rightarrow> bool" where
  "matchingBranchSet branch1 branch2 \<longleftrightarrow> br_count branch1 = br_count branch2"

text \<open>
  \<open>filterExceptionalBranches\<close> (lines 295-315). The loop walks the list two elements at
  a time; \<open>filterLoop\<close> takes the part of the list not yet visited, the list
  \<open>filtered_branches\<close> and the flag \<open>exception_branch\<close>. \<open>filtered_branches[-1]\<close> and
  \<open>filtered_branches[-2]\<close> are read only behind the test on the length.
\<close>

fun filterLoop :: "branch_raw list \<Rightarrow> branch_raw list \<Rightarrow> bool \<Rightarrow> branch_raw list" where
  "filterLoop [] filtered_branches exception_branch = filtered_branches"
| "filterLoop [b] filtered_branches exception_branch = filtered_branches @ [b]"
| "filterLoop (b1 # b2 # rest) filtered_branches exception_branch =
     (if throw b2 then filterLoop rest filtered_branches True
      else if exception_branch \<and> emptyBranchSet b1 b2 \<and> 2 \<le> length filtered_branches
              \<and> matchingBranchSet (filtered_branches ! (length filtered_branches - 1))
                                   (filtered_branches ! (length filtered_branches - 2))
           then []
      else filterLoop rest (filtered_branches @ [b1, b2]) exception_branch)"

definition filterExceptionalBranches :: "branch_raw list \<Rightarrow> branch_raw list" where
  "filterExceptionalBranches branches_l = filterLoop branches_l [] False"

text \<open>
  \<open>distillLine\<close> (lines 317-337). \<open>branchStep\<close> is one turn of the loop of lines 330-337,
  for the index \<open>i\<close> and the branch \<open>branch\<close>, with \<open>glen\<close> the length of the incoming
  list; \<open>branchLoop\<close> is the loop over \<open>enumerate\<close>.
\<close>

definition branchStep :: "int \<Rightarrow> nat \<Rightarrow> nat \<Rightarrow> branch_raw \<Rightarrow> branches_dict \<Rightarrow> branches_dict" where
  "branchStep line_num glen i branch branches_d =
     (let branches1 = (if map_of branches_d line_num = None
                       then AList.update line_num [] branches_d else branches_d);
          cur = (case map_of branches1 line_num of None \<Rightarrow> [] | Some c \<Rightarrow> c);
          blen = length cur;
          cur1 = (if blen < glen then cur @ replicate (glen - blen) 0 else cur);
          cur2 = cur1[i := cur1 ! i + br_count branch]
      in AList.update line_num cur2 branches1)"

fun branchLoop :: "int \<Rightarrow> nat \<Rightarrow> nat \<Rightarrow> branch_raw list \<Rightarrow> branches_dict \<Rightarrow> branches_dict" where
  "branchLoop line_num glen i [] branches_d = branches_d"
| "branchLoop line_num glen i (branch # rest) branches_d =
     branchLoop line_num glen (Suc i) rest (branchStep line_num glen i branch branches_d)"

definition distillLine ::
  "line_raw \<Rightarrow> lines_dict \<Rightarrow> branches_dict \<Rightarrow> bool \<Rightarrow> lines_dict \<times> branches_dict" where
  "distillLine line_raw lines_d branches_d include_exceptional_branches =
     (let line_num = line_number line_raw;
          count_v = line_count line_raw;
          lines1 = (case map_of lines_d line_num of
                      None \<Rightarrow> AList.update line_num count_v lines_d
                    | Some c \<Rightarrow> AList.update line_num (c + count_v) lines_d);
          incoming = (if \<not> include_exceptional_branches
                      then filterExceptionalBranches (raw_branches line_raw)
                      else raw_branches line_raw)
      in (lines1, branchLoop line_num (length incoming) 0 incoming branches_d))"

text \<open>
  \<open>distillSource\<close> (lines 339-352) and \<open>distillReport\<close> (lines 354-362). A source seen
  for the first time starts from the record with three empty dictionaries; the record is
  changed in place, so its place among the keys is the place of its first sighting.
\<close>

definition distillSource :: "source_raw \<Rightarrow> sources_dict \<Rightarrow> bool \<Rightarrow> sources_dict" where
  "distillSource source_raw sources include_exceptional_branches =
     (let source_name = file_abs source_raw;
          sources1 = (if map_of sources source_name = None
                      then AList.update source_name
                             \<lparr>src_functions = [], src_branches = [], src_lines = []\<rparr> sources
                      else sources);
          d = (case map_of sources1 source_name of
                 None \<Rightarrow> \<lparr>src_functions = [], src_branches = [], src_lines = []\<rparr> | Some d \<Rightarrow> d);
          functions1 = foldl (\<lambda>fs function. distillFunction function fs)
                         (src_functions d) (raw_functions source_raw);
          lb = foldl (\<lambda>(ls, bs) line. distillLine line ls bs include_exceptional_branches)
                 (src_lines d, src_branches d) (raw_lines source_raw)
      in AList.update source_name
           \<lparr>src_functions = functions1, src_branches = snd lb, src_lines = fst lb\<rparr> sources1)"

definition distillReport :: "source_raw list \<Rightarrow> bool \<Rightarrow> sources_dict" where
  "distillReport report_raw include_exceptional_branches =
     foldl (\<lambda>sources source. distillSource source sources include_exceptional_branches)
       [] report_raw"

section \<open>Partition into chunks\<close>

text \<open>
  \<open>int(a / b)\<close> for integers \<open>a\<close> and \<open>b \<noteq> 0\<close>: the quotient, truncated towards zero. (The
  source divides in floating point; for list lengths below \<open>2 ^ 53\<close> the truncated float
  quotient is the truncated exact quotient.) Division by zero raises.

  \<open>chunkSize\<close> is the first line of \<open>processGcdas\<close> (line 111) and of
  \<open>scanExclusionMarkers\<close> (line 263), with \<open>total_files\<close> the length of the list.
\<close>

definition int_truediv :: "int \<Rightarrow> int \<Rightarrow> int" where
  "int_truediv a b = (if (a < 0) \<noteq> (b < 0) then - (\<bar>a\<bar> div \<bar>b\<bar>) else \<bar>a\<bar> div \<bar>b\<bar>)"

definition chunkSize :: "int \<Rightarrow> nat \<Rightarrow> int \<Rightarrow> error + int" where
  "chunkSize min_chunk_size total_files jobs =
     (if jobs = 0 then Inl ZeroDivisionError
      else Inr (max min_chunk_size (int_truediv (int total_files) jobs + 1)))"

text \<open>
  \<open>chunks\<close> (lines 46-49): the slices \<open>l[i:i + n]\<close> for \<open>i\<close> in \<open>range(0, len(l), n)\<close>. A
  step of zero makes \<open>range\<close> raise \<open>ValueError\<close>, a negative step gives no slice at all;
  \<open>chunks_from\<close> produces the slices for a positive step.
\<close>

function chunks_from :: "'a list \<Rightarrow> nat \<Rightarrow> 'a list list" where
  "chunks_from l n = (if l = [] \<or> n = 0 then [] else take n l # chunks_from (drop n l) n)"
  by pat_completeness auto
termination
  by (relation "measure (\<lambda>(l, n). length l)") auto

declare chunks_from.simps [simp del]

definition chunks :: "'a list \<Rightarrow> int \<Rightarrow> error + 'a list list" where
  "chunks l n = (if n = 0 then Inl ValueError
                 else if n < 0 then Inr []
                 else Inr (chunks_from l (nat n)))"

text \<open>
  The list \<open>threads\<close> of \<open>processGcdas\<close> (lines 110-118) and of \<open>scanExclusionMarkers\<close>
  (lines 262-269): one thread is started per chunk, so the list of chunks stands for the
  list of threads, each with the chunk it is given.
\<close>

definition processGcdas_threads :: "int \<Rightarrow> 'a list \<Rightarrow> int \<Rightarrow> error + 'a list list" where
  "processGcdas_threads jobs coverage_files min_chunk_size =
     (case chunkSize min_chunk_size (length coverage_files) jobs of
        Inl e \<Rightarrow> Inl e
      | Inr chunk_size \<Rightarrow> chunks coverage_files chunk_size)"

definition scanExclusionMarkers_chunks ::
  "sources_dict \<Rightarrow> int \<Rightarrow> int \<Rightarrow> error + string list list" where
  "scanExclusionMarkers_chunks sources jobs min_chunk_size =
     (case chunkSize min_chunk_size (length sources) jobs of
        Inl e \<Rightarrow> Inl e
      | Inr chunk_size \<Rightarrow> chunks (map fst sources) chunk_size)"

section \<open>Exclusion markers\<close>

text \<open>
  The string operations the scanner uses. \<open>line.lstrip()\<close> drops leading whitespace (the
  ASCII whitespace characters of \<open>str.isspace\<close>; strings are byte lists here, whitespace
  beyond ASCII is not modelled), \<open>s.startswith(e)\<close> is \<open>prefix e s\<close>, and
  \<open>needle in line\<close> is \<open>contains needle line\<close>.
\<close>

definition isspace :: "char \<Rightarrow> bool" where
  "isspace c \<longleftrightarrow> c \<in> set [CHR 0x09, CHR 0x0A, CHR 0x0B, CHR 0x0C, CHR 0x0D,
                            CHR 0x1C, CHR 0x1D, CHR 0x1E, CHR 0x1F, CHR 0x20]"

definition lstrip :: "string \<Rightarrow> string" where
  "lstrip s = dropWhile isspace s"

definition startswith :: "string \<Rightarrow> string \<Rightarrow> bool" where
  "startswith s e = prefix e s"

fun contains :: "string \<Rightarrow> string \<Rightarrow> bool" where
  "contains needle [] = (needle = [])"
| "contains needle (c # cs) = (prefix needle (c # cs) \<or> contains needle cs)"

text \<open>
  \<open>del d[k]\<close> raises \<open>KeyError\<close> when \<open>k\<close> is not a key. \<open>delBranch\<close> is the statement
  \<open>del fastcov_sources[source]["branches"][i]\<close> on the record of one source: the record
  is changed in place, so a raise leaves it as it was at that moment. A computation that
  may raise returns the error, if any, together with the state it leaves behind.
\<close>

definition dict_del :: "'k \<Rightarrow> ('k \<times> 'v) list \<Rightarrow> error + ('k \<times> 'v) list" where
  "dict_del k d = (if map_of d k = None then Inl KeyError else Inr (AList.delete k d))"

definition delBranch :: "int \<Rightarrow> source_data \<Rightarrow> error option \<times> source_data" where
  "delBranch i d =
     (case dict_del i (src_branches d) of
        Inl e \<Rightarrow> (Some e, d)
      | Inr b \<Rightarrow> (None, d\<lparr>src_branches := b\<rparr>))"

text \<open>Lines 229-234 of \<open>exclMarkerWorker\<close>: the two prefix filters on the branch entry of line \<open>i\<close>.\<close>

definition filterBranchPrefix ::
  "string list \<Rightarrow> string list \<Rightarrow> int \<Rightarrow> string \<Rightarrow> source_data \<Rightarrow> error option \<times> source_data" where
  "filterBranchPrefix exclude_branches_sw include_branches_sw i line d =
     (if map_of (src_branches d) i = None then (None, d)
      else
        case (if include_branches_sw \<noteq> []
                 \<and> list_all (\<lambda>e. \<not> startswith (lstrip line) e) include_branches_sw
              then delBranch i d else (None, d)) of
          (Some e, d1) \<Rightarrow> (Some e, d1)
        | (None, d1) \<Rightarrow>
            (if exclude_branches_sw \<noteq> []
                \<and> list_ex (\<lambda>e. startswith (lstrip line) e) exclude_branches_sw
             then delBranch i d1 else (None, d1)))"

text \<open>
  The local variables \<open>start_line\<close> and \<open>end_line\<close> of \<open>exclMarkerWorker\<close> and the record
  of the source being scanned.
\<close>

record scan_state =
  st_start_line :: int
  st_end_line :: int
  st_data :: source_data

text \<open>
  \<open>if i in d: del d[i]\<close> (lines 241-242 and 259-260), and the loop of lines 253-255 over
  a copy of the keys, which deletes the keys between \<open>start_line\<close> and \<open>end_line\<close>.
\<close>

definition delIfPresent :: "int \<Rightarrow> (int \<times> 'v) list \<Rightarrow> (int \<times> 'v) list" where
  "delIfPresent i d = (if map_of d i \<noteq> None then AList.delete i d else d)"

definition delRange :: "int \<Rightarrow> int \<Rightarrow> (int \<times> 'v) list \<Rightarrow> (int \<times> 'v) list" where
  "delRange start_l end_l d =
     foldl (\<lambda>d line_num. if start_l \<le> line_num \<and> line_num \<le> end_l
                          then AList.delete line_num d else d)
       d (map fst d)"

text \<open>Lines 236-260: the marker keywords, tested in the order of the source.\<close>

definition markerStep :: "int \<Rightarrow> string \<Rightarrow> scan_state \<Rightarrow> scan_state" where
  "markerStep i line st =
     (if \<not> contains ''LCOV_EXCL'' line then st
      else if contains ''LCOV_EXCL_LINE'' line then
        st\<lparr>st_data := (st_data st)
              \<lparr>src_lines := delIfPresent i (src_lines (st_data st)),
               src_branches := delIfPresent i (src_branches (st_data st))\<rparr>\<rparr>
      else if contains ''LCOV_EXCL_START'' line then st\<lparr>st_start_line := i\<rparr>
      else if contains ''LCOV_EXCL_STOP'' line then
        (if st_start_line st = 0 then st\<lparr>st_end_line := 0\<rparr>
         else st\<lparr>st_data := (st_data st)
                   \<lparr>src_lines := delRange (st_start_line st) i (src_lines (st_data st)),
                    src_branches := delRange (st_start_line st) i (src_branches (st_data st))\<rparr>,
                 st_start_line := 0, st_end_line := 0\<rparr>)
      else if contains ''LCOV_EXCL_BR_LINE'' line then
        st\<lparr>st_data := (st_data st)
              \<lparr>src_branches := delIfPresent i (src_branches (st_data st))\<rparr>\<rparr>
      else st)"

text \<open>
  One turn of the loop over the lines of a file (lines 228-260), the loop itself with
  the line number counted from 1, and the scan of one source (lines 226-260). A raise ends
  the scan.
\<close>

definition scanLine ::
  "string list \<Rightarrow> string list \<Rightarrow> int \<Rightarrow> string \<Rightarrow> scan_state \<Rightarrow> error option \<times> scan_state" where
  "scanLine exclude_branches_sw include_branches_sw i line st =
     (case filterBranchPrefix exclude_branches_sw include_branches_sw i line (st_data st) of
        (Some e, d) \<Rightarrow> (Some e, st\<lparr>st_data := d\<rparr>)
      | (None, d) \<Rightarrow> (None, markerStep i line (st\<lparr>st_data := d\<rparr>)))"

fun scanLines ::
  "string list \<Rightarrow> string list \<Rightarrow> int \<Rightarrow> string list \<Rightarrow> scan_state \<Rightarrow> error option \<times> scan_state" where
  "scanLines exclude_branches_sw include_branches_sw i [] st = (None, st)"
| "scanLines exclude_branches_sw include_branches_sw i (line # rest) st =
     (case scanLine exclude_branches_sw include_branches_sw i line st of
        (Some e, st1) \<Rightarrow> (Some e, st1)
      | (None, st1) \<Rightarrow> scanLines exclude_branches_sw include_branches_sw (i + 1) rest st1)"

definition scanSource ::
  "string list \<Rightarrow> string list \<Rightarrow> string list \<Rightarrow> source_data \<Rightarrow> error option \<times> source_data" where
  "scanSource exclude_branches_sw include_branches_sw source_lines d =
     (case scanLines exclude_branches_sw include_branches_sw 1 source_lines
             \<lparr>st_start_line = 0, st_end_line = 0, st_data = d\<rparr> of
        (err, st) \<Rightarrow> (err, st_data st))"

text \<open>
  \<open>exclMarkerWorker\<close> (lines 224-260). \<open>fs\<close> stands for \<open>getSourceLines\<close> with its
  fallback encodings: the lines read from a path, or \<open>None\<close> when the file cannot be
  opened. \<open>fastcov_sources[source]\<close> is looked up only inside the loop over the lines.
\<close>

fun exclMarkerWorker ::
  "(string \<Rightarrow> string list option) \<Rightarrow> sources_dict \<Rightarrow> string list \<Rightarrow> string list \<Rightarrow> string list
     \<Rightarrow> error option \<times> sources_dict" where
  "exclMarkerWorker fs fastcov_sources [] exclude_branches_sw include_branches_sw =
     (None, fastcov_sources)"
| "exclMarkerWorker fs fastcov_sources (source # rest) exclude_branches_sw include_branches_sw =
     (case fs source of
        None \<Rightarrow> (Some OSError, fastcov_sources)
      | Some source_lines \<Rightarrow>
          (case map_of fastcov_sources source of
             None \<Rightarrow>
               (if source_lines = []
                then exclMarkerWorker fs fastcov_sources rest exclude_branches_sw include_branches_sw
                else (Some KeyError, fastcov_sources))
           | Some d \<Rightarrow>
               (case scanSource exclude_branches_sw include_branches_sw source_lines d of
                  (Some e, d1) \<Rightarrow> (Some e, AList.update source d1 fastcov_sources)
                | (None, d1) \<Rightarrow>
                    exclMarkerWorker fs (AList.update source d1 fastcov_sources) rest
                      exclude_branches_sw include_branches_sw)))"

text \<open>
  \<open>scanExclusionMarkers\<close> (lines 262-273). One thread runs \<open>exclMarkerWorker\<close> on each
  chunk of source paths; an exception in a thread ends that thread only. The chunks are
  disjoint and a worker reads and writes only the records of its own paths, so the report
  after all threads have joined is the one obtained by running the workers one after the
  other.
\<close>

definition scanExclusionMarkers ::
  "(string \<Rightarrow> string list option) \<Rightarrow> sources_dict \<Rightarrow> int \<Rightarrow> string list \<Rightarrow> string list \<Rightarrow> int
     \<Rightarrow> error option \<times> sources_dict" where
  "scanExclusionMarkers fs sources jobs exclude_branches_sw include_branches_sw min_chunk_size =
     (case scanExclusionMarkers_chunks sources jobs min_chunk_size of
        Inl e \<Rightarrow> (Some e, sources)
      | Inr cks \<Rightarrow>
          (None, foldl (\<lambda>s chunk. snd (exclMarkerWorker fs s chunk
                                          exclude_branches_sw include_branches_sw))
                   sources cks))"

section \<open>LCOV output\<close>

text \<open>
  The lines that \<open>dumpToLcovInfo\<close> writes, one constructor per format string of the
  source, with the values that fill it: \<open>FN l f\<close> is the line \<open>FN:l,f\<close>, \<open>BRDA l b i c\<close>
  the line \<open>BRDA:l,b,i,c\<close>, and so on. The output file is the list of its lines.
\<close>

datatype lcov_line =
    TN
  | SF string
  | FN int string
  | FNDA int string
  | FNF nat
  | FNH int
  | BRDA int nat nat int
  | BRF int
  | BRH int
  | DA int int
  | LF nat
  | LH int
  | EndOfRecord

text \<open>
  \<open>dumpBranchCoverageToLcovInfo\<close> (lines 157-170). \<open>brdaStep\<close> is one turn of the inner loop
  on the list \<open>brda\<close> and the counters \<open>branch_miss\<close> and \<open>branch_found\<close>; \<open>int(i/2)\<close> is
  \<open>i div 2\<close> for the index \<open>i\<close>. \<open>sorted\<close> on tuples is the lexicographic order.
\<close>

definition brdaStep ::
  "int \<Rightarrow> (int \<times> nat \<times> nat \<times> int) list \<times> int \<times> int \<Rightarrow> nat \<times> int
     \<Rightarrow> (int \<times> nat \<times> nat \<times> int) list \<times> int \<times> int" where
  "brdaStep line_num acc ic =
     (case acc of (brda, branch_miss, branch_found) \<Rightarrow>
        (case ic of (i, count_v) \<Rightarrow>
           (brda @ [(line_num, i div 2, i, count_v)],
            branch_miss + (if count_v = 0 then 1 else 0),
            branch_found + 1)))"

definition dumpBranchCoverageToLcovInfo :: "branches_dict \<Rightarrow> lcov_line list" where
  "dumpBranchCoverageToLcovInfo branches_d =
     (case foldl (\<lambda>acc (line_num, branch_counts).
                    foldl (brdaStep line_num) acc (enumerate 0 branch_counts))
             ([], 0, 0) branches_d of
        (brda, branch_miss, branch_found) \<Rightarrow>
          map (\<lambda>(l, b, i, c). BRDA l b i c) (sort brda)
          @ [BRF branch_found, BRH (branch_found - branch_miss)])"

text \<open>
  \<open>dumpToLcovInfo\<close> (lines 172-208). \<open>fnStep\<close> is one turn of the loop over the functions
  (lines 184-187), \<open>daStep\<close> one turn of the loop over the lines (lines 201-203),
  \<open>lcovBlock\<close> the body of the loop over the source paths and \<open>dumpToLcovInfo\<close> that loop,
  over the sorted keys. A key of \<open>sources\<close> always has a record.
\<close>

definition fnStep ::
  "(int \<times> string) list \<times> (int \<times> string) list \<times> int \<Rightarrow> string \<times> function_data
     \<Rightarrow> (int \<times> string) list \<times> (int \<times> string) list \<times> int" where
  "fnStep acc ffd =
     (case acc of (fn, fnda, fn_miss) \<Rightarrow>
        (case ffd of (function, fdata) \<Rightarrow>
           (fn @ [(start_line fdata, function)],
            fnda @ [(execution_count fdata, function)],
            fn_miss + (if execution_count fdata = 0 then 1 else 0))))"

definition daStep :: "(int \<times> int) list \<times> int \<Rightarrow> int \<times> int \<Rightarrow> (int \<times> int) list \<times> int" where
  "daStep acc lc =
     (case acc of (da, line_miss) \<Rightarrow>
        (case lc of (line_num, count_v) \<Rightarrow>
           (da @ [(line_num, count_v)], line_miss + (if count_v = 0 then 1 else 0))))"

definition lcovBlock :: "string \<Rightarrow> source_data \<Rightarrow> lcov_line list" where
  "lcovBlock sf data =
     [TN, SF sf]
     @ (case foldl fnStep ([], [], 0) (src_functions data) of
          (fn, fnda, fn_miss) \<Rightarrow>
            map (\<lambda>(l, f). FN l f) (sort fn)
            @ map (\<lambda>(c, f). FNDA c f) (sort fnda)
            @ [FNF (length (src_functions data)),
               FNH (int (length (src_functions data)) - fn_miss)])
     @ (if src_branches data \<noteq> [] then dumpBranchCoverageToLcovInfo (src_branches data) else [])
     @ (case foldl daStep ([], 0) (src_lines data) of
          (da, line_miss) \<Rightarrow>
            map (\<lambda>(l, c). DA l c) (sort da)
            @ [LF (length (src_lines data)), LH (int (length (src_lines data)) - line_miss)])
     @ [EndOfRecord]"

definition dumpToLcovInfo :: "sources_dict \<Rightarrow> lcov_line list" where
  "dumpToLcovInfo sources =
     concat (map (\<lambda>sf. case map_of sources sf of
                          None \<Rightarrow> []
                        | Some data \<Rightarrow> lcovBlock sf data)
                 (sort (map fst sources)))"

section \<open>Canonical JSON output\<close>

text \<open>
  \<open>str(i)\<close> for an integer \<open>i\<close>: its decimal digits, after a minus sign when it is
  negative.
\<close>

definition digit_char :: "nat \<Rightarrow> char" where
  "digit_char d = ''0123456789'' ! d"

fun str_nat :: "nat \<Rightarrow> string" where
  "str_nat n = (if n < 10 then [digit_char n] else str_nat (n div 10) @ [digit_char (n mod 10)])"

declare str_nat.simps [simp del]

definition str_int :: "int \<Rightarrow> string" where
  "str_int i = (if i < 0 then CHR ''-'' # str_nat (nat (- i)) else str_nat (nat i))"

text \<open>
  \<open>dumpToJson\<close> (lines 364-366) hands the report to \<open>json.dump\<close> of Python's standard
  library. A Python value as far as the report needs it is an integer, a list or a
  dictionary whose keys are strings or integers (\<open>pyval\<close>); a JSON document is a number, an
  array or an object, whose member names are strings (\<open>json\<close>). \<open>json_encode\<close> is what
  \<open>json.dump\<close> writes: a dictionary becomes an object, with a key that is an integer
  written as the string \<open>str\<close> gives. \<open>json_decode\<close> is what \<open>json.load\<close> returns for a
  document: an object becomes a dictionary with string keys, built member by member, so a
  repeated name keeps its first place and its last value. The text of the document is not
  modelled: writing a JSON value and parsing the text give the same JSON value.
\<close>

datatype pykey = KStr string | KInt int

datatype pyval = PInt int | PList "pyval list" | PDict "(pykey \<times> pyval) list"

datatype json = JInt int | JArr "json list" | JObj "(string \<times> json) list"

fun key_str :: "pykey \<Rightarrow> string" where
  "key_str (KStr s) = s"
| "key_str (KInt i) = str_int i"

primrec json_encode :: "pyval \<Rightarrow> json" where
  "json_encode (PInt i) = JInt i"
| "json_encode (PList vs) = JArr (map json_encode vs)"
| "json_encode (PDict kvs) = JObj (map (map_prod key_str json_encode) kvs)"

definition dict_of_pairs :: "('k \<times> 'v) list \<Rightarrow> ('k \<times> 'v) list" where
  "dict_of_pairs kvs = foldl (\<lambda>d kv. AList.update (fst kv) (snd kv) d) [] kvs"

primrec json_decode :: "json \<Rightarrow> pyval" where
  "json_decode (JInt i) = PInt i"
| "json_decode (JArr js) = PList (map json_decode js)"
| "json_decode (JObj kjs) = PDict (dict_of_pairs (map (map_prod KStr json_decode) kjs))"

text \<open>
  The report in memory as a Python value: the dictionary that \<open>distillReport\<close> returns,
  with the records built at lines 282-285 and 342-346. \<open>line_key\<close> is the form of the keys
  of the \<open>lines\<close> and \<open>branches\<close> dictionaries; in memory they are the integers
  \<open>line_number\<close> (\<open>KInt\<close>).
\<close>

definition fdata_value :: "function_data \<Rightarrow> pyval" where
  "fdata_value fd =
     PDict [(KStr ''start_line'', PInt (start_line fd)),
            (KStr ''execution_count'', PInt (execution_count fd))]"

definition source_value :: "(int \<Rightarrow> pykey) \<Rightarrow> source_data \<Rightarrow> pyval" where
  "source_value line_key data =
     PDict [(KStr ''functions'',
               PDict (map (\<lambda>(f, fd). (KStr f, fdata_value fd)) (src_functions data))),
            (KStr ''branches'',
               PDict (map (\<lambda>(l, cs). (line_key l, PList (map PInt cs))) (src_branches data))),
            (KStr ''lines'',
               PDict (map (\<lambda>(l, c). (line_key l, PInt c)) (src_lines data)))]"

definition report_value :: "(int \<Rightarrow> pykey) \<Rightarrow> sources_dict \<Rightarrow> pyval" where
  "report_value line_key sources =
     PDict [(KStr ''sources'',
               PDict (map (\<lambda>(sf, data). (KStr sf, source_value line_key data)) sources))]"

definition dumpToJson :: "sources_dict \<Rightarrow> json" where
  "dumpToJson sources = json_encode (report_value KInt sources)"

section \<open>Auxiliary notions for stating the properties\<close>

text \<open>
  What one more sighting of a function does to its entry: the first sighting creates the
  entry, a later one adds its count.
\<close>

fun mergeFunction :: "function_data option \<Rightarrow> function_raw \<Rightarrow> function_data option" where
  "mergeFunction None fr =
     Some \<lparr>start_line = raw_start_line fr, execution_count = raw_execution_count fr\<rparr>"
| "mergeFunction (Some fd) fr =
     Some (fd\<lparr>execution_count := execution_count fd + raw_execution_count fr\<rparr>)"

text \<open>The entry of function \<open>f\<close> of source \<open>sf\<close> in a report: \<open>sources[sf]["functions"][f]\<close>.\<close>

definition lookupFunction :: "sources_dict \<Rightarrow> string \<Rightarrow> string \<Rightarrow> function_data option" where
  "lookupFunction sources sf f =
     (case map_of sources sf of None \<Rightarrow> None | Some d \<Rightarrow> map_of (src_functions d) f)"

text \<open>
  The entries of function \<open>f\<close> in the raw records of source \<open>sf\<close>, in the order in which
  distillation meets them, and the count one raw record contributes to \<open>f\<close> of \<open>sf\<close>.
\<close>

definition sightings :: "source_raw list \<Rightarrow> string \<Rightarrow> string \<Rightarrow> function_raw list" where
  "sightings report_raw sf f =
     concat (map (\<lambda>r. if file_abs r = sf
                       then filter (\<lambda>fr. name fr = f) (raw_functions r) else [])
                 report_raw)"

definition recordCount :: "string \<Rightarrow> string \<Rightarrow> source_raw \<Rightarrow> int" where
  "recordCount sf f r =
     (if file_abs r = sf
      then sum_list (map raw_execution_count (filter (\<lambda>fr. name fr = f) (raw_functions r)))
      else 0)"

definition raw_foo3 :: source_raw where
  "raw_foo3 = \<lparr>file_abs = ''/src/a.h'',
      raw_functions = [\<lparr>name = ''foo'', raw_start_line = 10, raw_execution_count = 3\<rparr>],
      raw_lines = []\<rparr>"

definition raw_foo4 :: source_raw where
  "raw_foo4 = \<lparr>file_abs = ''/src/a.h'',
      raw_functions = [\<lparr>name = ''foo'', raw_start_line = 10, raw_execution_count = 4\<rparr>],
      raw_lines = []\<rparr>"

text \<open>
  The list that \<open>distillLine\<close> accumulates (lines 326-327): the raw list, or the filtered
  one unless exceptional branches were asked for; and the canonical list of a line, empty
  when the line has no entry yet.
\<close>

definition incomingBranches :: "line_raw \<Rightarrow> bool \<Rightarrow> branch_raw list" where
  "incomingBranches line_raw include_exceptional_branches =
     (if \<not> include_exceptional_branches
      then filterExceptionalBranches (raw_branches line_raw) else raw_branches line_raw)"

definition canonicalBranches :: "branches_dict \<Rightarrow> int \<Rightarrow> int list" where
  "canonicalBranches branches_d line_num =
     (case map_of branches_d line_num of None \<Rightarrow> [] | Some c \<Rightarrow> c)"

text \<open>
  The accumulation as the specification words it: zero-extend the canonical list to the
  length of the incoming one if it is shorter, then add the incoming counts index by index
  (positions beyond the incoming list keep their count).
\<close>

definition accumulateBranches :: "int list \<Rightarrow> branch_raw list \<Rightarrow> int list" where
  "accumulateBranches canonical incoming =
     map2 (+) (canonical @ replicate (length incoming - length canonical) 0)
              (map br_count incoming @ replicate (length canonical - length incoming) 0)"

text \<open>What the turns of the loop from index \<open>i\<close> on do to a list that is long enough.\<close>

fun addFrom :: "nat \<Rightarrow> branch_raw list \<Rightarrow> int list \<Rightarrow> int list" where
  "addFrom i [] cur = cur"
| "addFrom i (b # bs) cur = addFrom (Suc i) bs (cur[i := cur ! i + br_count b])"

text \<open>
  Every line with a branch list before still has one after, and it is no shorter; the same
  for every line of every source of a report.
\<close>

definition branchesNoShorter :: "branches_dict \<Rightarrow> branches_dict \<Rightarrow> bool" where
  "branchesNoShorter before after \<longleftrightarrow>
     (\<forall>k \<in> set (map fst before).
        case map_of after k of
          None \<Rightarrow> False
        | Some c' \<Rightarrow> length (canonicalBranches before k) \<le> length c')"

definition reportNoShorter :: "sources_dict \<Rightarrow> sources_dict \<Rightarrow> bool" where
  "reportNoShorter before after \<longleftrightarrow>
     (\<forall>sf \<in> set (map fst before).
        case map_of after sf of
          None \<Rightarrow> False
        | Some d' \<Rightarrow>
            (case map_of before sf of
               None \<Rightarrow> False
             | Some d \<Rightarrow> branchesNoShorter (src_branches d) (src_branches d')))"

definition line7_len2 :: line_raw where
  "line7_len2 = \<lparr>line_number = 7, line_count = 1,
      raw_branches = [\<lparr>br_count = 1, throw = False\<rparr>, \<lparr>br_count = 2, throw = False\<rparr>]\<rparr>"

definition line7_len4 :: line_raw where
  "line7_len4 = \<lparr>line_number = 7, line_count = 1,
      raw_branches = [\<lparr>br_count = 10, throw = False\<rparr>, \<lparr>br_count = 20, throw = False\<rparr>,
                      \<lparr>br_count = 30, throw = False\<rparr>, \<lparr>br_count = 40, throw = False\<rparr>]\<rparr>"

text \<open>A raw branch entry \<open>{"count": c, "throw": t}\<close>, and a line with one throwing pair.\<close>

abbreviation branch :: "int \<Rightarrow> bool \<Rightarrow> branch_raw" where
  "branch c t \<equiv> \<lparr>br_count = c, throw = t\<rparr>"


text \<open>
  The filter as the specification words it: walk the list in adjacent pairs, drop a pair
  whose second element is flagged \<open>throw\<close>, keep an unpaired last element. \<open>hasThrowPair\<close>
  says whether some pair of the list is dropped that way.
\<close>

fun dropThrowPairs :: "branch_raw list \<Rightarrow> branch_raw list" where
  "dropThrowPairs [] = []"
| "dropThrowPairs [b] = [b]"
| "dropThrowPairs (b1 # b2 # rest) =
     (if throw b2 then dropThrowPairs rest else b1 # b2 # dropThrowPairs rest)"

fun hasThrowPair :: "branch_raw list \<Rightarrow> bool" where
  "hasThrowPair [] = False"
| "hasThrowPair [b] = False"
| "hasThrowPair (b1 # b2 # rest) = (throw b2 \<or> hasThrowPair rest)"

text \<open>
  The test of line 309 on the list kept so far, the flag and the pair at hand; and whether
  the loop, started on \<open>bs\<close> with the list \<open>kept\<close> and the flag \<open>exc\<close>, leaves through
  \<open>return []\<close>.
\<close>

definition noiseCondition :: "branch_raw list \<Rightarrow> bool \<Rightarrow> branch_raw \<Rightarrow> branch_raw \<Rightarrow> bool" where
  "noiseCondition kept dropped_before b1 b2 \<longleftrightarrow>
     dropped_before \<and> emptyBranchSet b1 b2 \<and> 2 \<le> length kept
     \<and> matchingBranchSet (kept ! (length kept - 1)) (kept ! (length kept - 2))"

fun noiseHit :: "branch_raw list \<Rightarrow> branch_raw list \<Rightarrow> bool \<Rightarrow> bool" where
  "noiseHit [] kept exc = False"
| "noiseHit [b] kept exc = False"
| "noiseHit (b1 # b2 # rest) kept exc =
     (if throw b2 then noiseHit rest kept True
      else noiseCondition kept exc b1 b2 \<or> noiseHit rest (kept @ [b1, b2]) exc)"

text \<open>
  The chunk size as the specification words it:
  \<open>max(minChunkSize, ceil(totalFiles / workerCount))\<close>; and a list of ten files.
\<close>

definition specChunkSize :: "int \<Rightarrow> nat \<Rightarrow> int \<Rightarrow> int" where
  "specChunkSize min_chunk_size total_files jobs =
     max min_chunk_size \<lceil>real total_files / real_of_int jobs\<rceil>"

definition files10 :: "string list" where
  "files10 = [''f0'', ''f1'', ''f2'', ''f3'', ''f4'', ''f5'', ''f6'', ''f7'', ''f8'', ''f9'']"

text \<open>
  A file of 25 lines with a range start on line 10 and a range stop on line 20, a record
  with line and branch entries at lines 5 to 25, and a small scanner state with a given
  pending start.
\<close>

definition marked_file :: "string list" where
  "marked_file = replicate 9 ''int x;'' @ [''// LCOV_EXCL_START''] @ replicate 9 ''int y;''
                 @ [''// LCOV_EXCL_STOP''] @ replicate 5 ''int z;''"





text \<open>A record with one branch entry on line 1, where the file has \<open>assert(x);\<close>.\<close>

definition assert_state :: scan_state where
  "assert_state =
     \<lparr>st_start_line = 0, st_end_line = 0,
      st_data = \<lparr>src_functions = [], src_branches = [(1, [1, 0])], src_lines = [(1, 1)]\<rparr>\<rparr>"


definition fnEntries :: "source_data \<Rightarrow> (int \<times> string) list" where
  "fnEntries data = map (\<lambda>(f, fd). (start_line fd, f)) (src_functions data)"

definition fndaEntries :: "source_data \<Rightarrow> (int \<times> string) list" where
  "fndaEntries data = map (\<lambda>(f, fd). (execution_count fd, f)) (src_functions data)"

definition brdaEntries :: "branches_dict \<Rightarrow> (int \<times> nat \<times> nat \<times> int) list" where
  "brdaEntries branches_d =
     concat (map (\<lambda>(line_num, counts).
                    map (\<lambda>i. (line_num, i div 2, i, counts ! i)) [0..<length counts])
                 branches_d)"

text \<open>All stored branch counts of a source, and the number of counts that are not zero.\<close>

definition allBranches :: "branches_dict \<Rightarrow> int list" where
  "allBranches branches_d = concat (map snd branches_d)"

definition nonzero :: "int list \<Rightarrow> int" where
  "nonzero cs = int (length (filter (\<lambda>c. c \<noteq> 0) cs))"

definition one_function :: source_data where
  "one_function =
     \<lparr>src_functions = [(''f'', \<lparr>start_line = 4, execution_count = 0\<rparr>)],
      src_branches = [], src_lines = []\<rparr>"

text \<open>
  The source paths of a report, in order, each with its \<open>functions\<close> dictionary; the
  \<open>FNF\<close> and \<open>FNH\<close> lines of an output; and a record like \<open>record_5_25\<close> whose function
  starts on line 12.
\<close>

definition functionsOf :: "sources_dict \<Rightarrow> (string \<times> functions_dict) list" where
  "functionsOf sources = map (\<lambda>(sf, data). (sf, src_functions data)) sources"

fun isFnCount :: "lcov_line \<Rightarrow> bool" where
  "isFnCount (FNF n) = True"
| "isFnCount (FNH n) = True"
| "isFnCount _ = False"

definition record_g :: source_data where
  "record_g = \<lparr>src_functions = [(''g'', \<lparr>start_line = 12, execution_count = 3\<rparr>)],
               src_branches = map (\<lambda>k. (k, [1, 0])) [5..25],
               src_lines = map (\<lambda>k. (k, 1)) [5..25]\<rparr>"

text \<open>A report with one function, one line entry and one branch entry, all on one source.\<close>

definition one_line_report :: sources_dict where
  "one_line_report =
     [(''/src/a.c'', \<lparr>src_functions = [(''f'', \<lparr>start_line = 4, execution_count = 2\<rparr>)],
                      src_branches = [(5, [1, 0])], src_lines = [(5, 3)]\<rparr>)]"

text \<open>Reading a decimal string back, to show that \<open>str\<close> maps different integers apart.\<close>

definition digit_val :: "char \<Rightarrow> nat" where
  "digit_val c = (of_char c :: nat) - 48"

definition parse_nat :: "string \<Rightarrow> nat" where
  "parse_nat s = foldl (\<lambda>a c. 10 * a + digit_val c) 0 s"

text \<open>
  A report whose dictionaries all have distinct keys, as Python dictionaries have; the
  string key that stands for line \<open>l\<close> after re-parsing; and a report without any line or
  branch entry.
\<close>

definition wf_source :: "source_data \<Rightarrow> bool" where
  "wf_source data \<longleftrightarrow>
     distinct (map fst (src_functions data)) \<and> distinct (map fst (src_branches data))
     \<and> distinct (map fst (src_lines data))"

definition wf_report :: "sources_dict \<Rightarrow> bool" where
  "wf_report sources \<longleftrightarrow>
     distinct (map fst sources) \<and> list_all (\<lambda>(sf, data). wf_source data) sources"

definition str_key :: "int \<Rightarrow> pykey" where
  "str_key l = KStr (str_int l)"

definition no_line_entries :: "sources_dict \<Rightarrow> bool" where
  "no_line_entries sources \<longleftrightarrow>
     list_all (\<lambda>(sf, data). src_branches data = [] \<and> src_lines data = []) sources"

text \<open>The raw record whose distillation is \<open>one_line_report\<close>.\<close>

definition one_line_raw :: source_raw where
  "one_line_raw =
     \<lparr>file_abs = ''/src/a.c'',
      raw_functions = [\<lparr>name = ''f'', raw_start_line = 4, raw_execution_count = 2\<rparr>],
      raw_lines = [\<lparr>line_number = 5, line_count = 3,
                    raw_branches = [branch 1 False, branch 0 False]\<rparr>]\<rparr>"

section \<open>Properties of distillation\<close>

subsection \<open>Functions merge by name\<close>

lemma map_of_distillFunction:
  "map_of (distillFunction fr fs) f
     = (if name fr = f then mergeFunction (map_of fs f) fr else map_of fs f)"
  by (auto simp: distillFunction_def Let_def update_conv' split: option.splits)

lemma map_of_distillFunctions:
  "map_of (foldl (\<lambda>fs fr. distillFunction fr fs) fs frs) f
     = foldl mergeFunction (map_of fs f) (filter (\<lambda>fr. name fr = f) frs)"
  by (induction frs arbitrary: fs) (simp_all add: map_of_distillFunction)

lemma foldl_mergeFunction_Some:
  "foldl mergeFunction (Some fd) frs
     = Some (fd\<lparr>execution_count :=
                  execution_count fd + sum_list (map raw_execution_count frs)\<rparr>)"
  by (induction frs arbitrary: fd) (simp_all add: add.assoc)

lemma foldl_mergeFunction_None:
  "foldl mergeFunction None (fr # frs)
     = Some \<lparr>start_line = raw_start_line fr,
              execution_count = sum_list (map raw_execution_count (fr # frs))\<rparr>"
  by (simp add: foldl_mergeFunction_Some)

lemma lookupFunction_distillSource:
  "lookupFunction (distillSource r sources inc) sf f =
     (if file_abs r = sf
      then foldl mergeFunction (lookupFunction sources sf f)
             (filter (\<lambda>fr. name fr = f) (raw_functions r))
      else lookupFunction sources sf f)"
  by (auto simp: lookupFunction_def distillSource_def Let_def update_conv'
        map_of_distillFunctions split: option.splits)

lemma lookupFunction_foldl:
  "lookupFunction (foldl (\<lambda>sources source. distillSource source sources inc) sources rs) sf f
     = foldl mergeFunction (lookupFunction sources sf f) (sightings rs sf f)"
  by (induction rs arbitrary: sources) (simp_all add: sightings_def lookupFunction_distillSource)

lemma lookupFunction_distillReport:
  "lookupFunction (distillReport rs inc) sf f = foldl mergeFunction None (sightings rs sf f)"
proof -
  have "lookupFunction [] sf f = None" by (simp add: lookupFunction_def)
  then show ?thesis unfolding distillReport_def lookupFunction_foldl by simp
qed

lemma sum_sightings:
  "sum_list (map raw_execution_count (sightings rs sf f)) = sum_list (map (recordCount sf f) rs)"
  by (induction rs) (simp_all add: sightings_def recordCount_def)

lemma sum_list_map_mset:
  fixes h :: "'a \<Rightarrow> int"
  shows "mset xs = mset ys \<Longrightarrow> sum_list (map h xs) = sum_list (map h ys)"
  by (metis mset_map sum_mset_sum_list)

lemma sightings_Nil_iff:
  "sightings rs sf f = [] \<longleftrightarrow>
     (\<forall>r \<in> set rs. file_abs r = sf \<longrightarrow> (\<forall>fr \<in> set (raw_functions r). name fr \<noteq> f))"
  by (induction rs) (auto simp: sightings_def filter_empty_conv)

lemma lookupFunction_distillReport_cases:
  "lookupFunction (distillReport rs inc) sf f
     = (case sightings rs sf f of
          [] \<Rightarrow> None
        | s # _ \<Rightarrow> Some \<lparr>start_line = raw_start_line s,
                         execution_count = sum_list (map (recordCount sf f) rs)\<rparr>)"
proof (cases "sightings rs sf f")
  case Nil
  then show ?thesis by (simp add: lookupFunction_distillReport)
next
  case (Cons s ss)
  show ?thesis
    unfolding lookupFunction_distillReport
    by (simp only: Cons foldl_mergeFunction_None list.case sum_sightings [symmetric])
qed

text \<open>
  C1. Distillation merges functions by name within one source path. The entry of
  function \<open>f\<close> of source \<open>sf\<close> after distilling the raw records \<open>rs\<close> is absent when no
  record of \<open>sf\<close> has \<open>f\<close>; otherwise its \<open>start_line\<close> is that of the first sighting and
  its \<open>execution_count\<close> is the sum of the counts the records contribute. The stored
  count is the same for every order of the records (and for either setting of the
  exceptional-branch switch). Counts 3 and 4 for \<open>foo\<close> at line 10 give line 10, count 7.
\<close>

theorem distill_function_sum:
  "lookupFunction (distillReport rs inc) sf f
     = (case sightings rs sf f of
          [] \<Rightarrow> None
        | s # _ \<Rightarrow> Some \<lparr>start_line = raw_start_line s,
                         execution_count = sum_list (map (recordCount sf f) rs)\<rparr>)
   \<and> (mset rs = mset rs' \<longrightarrow>
        map_option execution_count (lookupFunction (distillReport rs inc) sf f)
          = map_option execution_count (lookupFunction (distillReport rs' inc') sf f))
   \<and> distillReport [raw_foo3, raw_foo4] inc
        = [(''/src/a.h'',
            \<lparr>src_functions = [(''foo'', \<lparr>start_line = 10, execution_count = 7\<rparr>)],
             src_branches = [], src_lines = []\<rparr>)]"
proof (intro conjI impI)
  show "lookupFunction (distillReport rs inc) sf f
     = (case sightings rs sf f of
          [] \<Rightarrow> None
        | s # _ \<Rightarrow> Some \<lparr>start_line = raw_start_line s,
                         execution_count = sum_list (map (recordCount sf f) rs)\<rparr>)"
    by (rule lookupFunction_distillReport_cases)
  show "map_option execution_count (lookupFunction (distillReport rs inc) sf f)
          = map_option execution_count (lookupFunction (distillReport rs' inc') sf f)"
    if perm: "mset rs = mset rs'"
  proof -
    from perm have sets: "set rs = set rs'" by (metis set_mset_mset)
    have sums: "sum_list (map (recordCount sf f) rs) = sum_list (map (recordCount sf f) rs')"
      using perm by (rule sum_list_map_mset)
    show ?thesis
    proof (cases "sightings rs sf f = []")
      case True
      with sets have "sightings rs' sf f = []" by (simp add: sightings_Nil_iff)
      with True show ?thesis by (simp add: lookupFunction_distillReport_cases)
    next
      case False
      with sets have "sightings rs' sf f \<noteq> []" by (simp add: sightings_Nil_iff)
      with False sums show ?thesis
        by (simp add: lookupFunction_distillReport_cases split: list.splits)
    qed
  qed
  show "distillReport [raw_foo3, raw_foo4] inc
        = [(''/src/a.h'',
            \<lparr>src_functions = [(''foo'', \<lparr>start_line = 10, execution_count = 7\<rparr>)],
             src_branches = [], src_lines = []\<rparr>)]"
    by (simp add: distillReport_def distillSource_def distillFunction_def raw_foo3_def
          raw_foo4_def Let_def)
qed

theorem distill_function_sum_witness:
  "mset [raw_foo3, raw_foo4] = mset [raw_foo4, raw_foo3]
   \<and> map_option execution_count
        (lookupFunction (distillReport [raw_foo3, raw_foo4] False) ''/src/a.h'' ''foo'')
       = map_option execution_count
           (lookupFunction (distillReport [raw_foo4, raw_foo3] True) ''/src/a.h'' ''foo'')
   \<and> lookupFunction (distillReport [raw_foo3, raw_foo4] False) ''/src/a.h'' ''foo''
       = Some \<lparr>start_line = 10, execution_count = 7\<rparr>"
proof -
  have h: "mset [raw_foo3, raw_foo4] = mset [raw_foo4, raw_foo3]" by simp
  have s: "sightings [raw_foo3, raw_foo4] ''/src/a.h'' ''foo''
             = [\<lparr>name = ''foo'', raw_start_line = 10, raw_execution_count = 3\<rparr>,
                \<lparr>name = ''foo'', raw_start_line = 10, raw_execution_count = 4\<rparr>]"
    by (simp add: sightings_def raw_foo3_def raw_foo4_def)
  have c: "sum_list (map (recordCount ''/src/a.h'' ''foo'') [raw_foo3, raw_foo4]) = 7"
    by (simp add: recordCount_def raw_foo3_def raw_foo4_def)
  note t = distill_function_sum
         [of "[raw_foo3, raw_foo4]" False "''/src/a.h''" "''foo''" "[raw_foo4, raw_foo3]" True]
  from t h have b: "map_option execution_count
        (lookupFunction (distillReport [raw_foo3, raw_foo4] False) ''/src/a.h'' ''foo'')
       = map_option execution_count
           (lookupFunction (distillReport [raw_foo4, raw_foo3] True) ''/src/a.h'' ''foo'')"
    by blast
  from t have "lookupFunction (distillReport [raw_foo3, raw_foo4] False) ''/src/a.h'' ''foo''
     = (case sightings [raw_foo3, raw_foo4] ''/src/a.h'' ''foo'' of
          [] \<Rightarrow> None
        | s # _ \<Rightarrow> Some \<lparr>start_line = raw_start_line s,
                         execution_count =
                           sum_list (map (recordCount ''/src/a.h'' ''foo'') [raw_foo3, raw_foo4])\<rparr>)"
    by (rule conjunct1)
  then have a: "lookupFunction (distillReport [raw_foo3, raw_foo4] False) ''/src/a.h'' ''foo''
       = Some \<lparr>start_line = 10, execution_count = 7\<rparr>"
    unfolding s c by simp
  from h b a show ?thesis by blast
qed

subsection \<open>Branch lists accumulate by position\<close>

lemma length_addFrom [simp]: "length (addFrom i bs cur) = length cur"
  by (induction bs arbitrary: i cur) simp_all

lemma nth_addFrom:
  "i + length bs \<le> length cur \<Longrightarrow> j < length cur \<Longrightarrow>
   addFrom i bs cur ! j
     = cur ! j + (if i \<le> j \<and> j < i + length bs then br_count (bs ! (j - i)) else 0)"
proof (induction bs arbitrary: i cur)
  case Nil
  then show ?case by simp
next
  case (Cons b bs)
  then show ?case
    by (auto simp: nth_list_update nth_Cons' Suc_diff_le)
qed

lemma map_of_branchStep:
  "map_of (branchStep lnum glen i b brs) k =
     (if k = lnum
      then Some ((canonicalBranches brs lnum @ replicate (glen - length (canonicalBranches brs lnum)) 0)
                   [i := (canonicalBranches brs lnum @ replicate (glen - length (canonicalBranches brs lnum)) 0) ! i + br_count b])
      else map_of brs k)"
  by (auto simp: branchStep_def canonicalBranches_def Let_def update_conv' split: option.splits)

lemma map_of_branchLoop:
  "map_of (branchLoop lnum glen i bs brs) k =
     (if k = lnum \<and> bs \<noteq> []
      then Some (addFrom i bs (canonicalBranches brs lnum @ replicate (glen - length (canonicalBranches brs lnum)) 0))
      else map_of brs k)"
proof (induction bs arbitrary: i brs)
  case Nil
  then show ?case by simp
next
  case (Cons b bs)
  let ?c = "canonicalBranches brs lnum"
  let ?p = "?c @ replicate (glen - length ?c) 0"
  let ?q = "?p[i := ?p ! i + br_count b]"
  let ?brs' = "branchStep lnum glen i b brs"
  have c': "canonicalBranches ?brs' lnum = ?q"
    unfolding canonicalBranches_def [of ?brs'] map_of_branchStep by simp
  have pad: "?q @ replicate (glen - length ?q) 0 = ?q" by simp
  have step: "map_of (branchLoop lnum glen i (b # bs) brs) k
                = (if k = lnum \<and> bs \<noteq> [] then Some (addFrom (Suc i) bs ?q) else map_of ?brs' k)"
    unfolding branchLoop.simps Cons.IH c' pad ..
  show ?case
    unfolding step by (simp add: map_of_branchStep)
qed

lemma addFrom_accumulate:
  "addFrom 0 inc (old @ replicate (length inc - length old) 0) = accumulateBranches old inc"
proof (rule nth_equalityI)
  show "length (addFrom 0 inc (old @ replicate (length inc - length old) 0)) = length (accumulateBranches old inc)"
    by (simp add: accumulateBranches_def)
next
  fix j assume "j < length (addFrom 0 inc (old @ replicate (length inc - length old) 0))"
  then have j: "j < length old + (length inc - length old)" by simp
  then show "addFrom 0 inc (old @ replicate (length inc - length old) 0) ! j = accumulateBranches old inc ! j"
    by (auto simp: nth_addFrom accumulateBranches_def nth_append)
qed

lemma length_accumulateBranches:
  "length (accumulateBranches old inc) = max (length old) (length inc)"
  by (simp add: accumulateBranches_def)

lemma map_of_distillLine_branches:
  "map_of (snd (distillLine lr ls brs inc)) k =
     (if k = line_number lr \<and> incomingBranches lr inc \<noteq> []
      then Some (accumulateBranches (canonicalBranches brs (line_number lr)) (incomingBranches lr inc))
      else map_of brs k)"
  by (simp add: distillLine_def Let_def map_of_branchLoop addFrom_accumulate incomingBranches_def)

lemma keys_Some: "k \<in> set (map fst al) \<Longrightarrow> \<exists>v. map_of al k = Some v"
  using map_of_eq_None_iff [of al k] by auto

lemma Some_keys: "map_of al k = Some v \<Longrightarrow> k \<in> set (map fst al)"
  using map_of_eq_None_iff [of al k] by auto

lemma branchesNoShorter_iff:
  "branchesNoShorter a b \<longleftrightarrow>
     (\<forall>k c. map_of a k = Some c \<longrightarrow> (\<exists>c'. map_of b k = Some c' \<and> length c \<le> length c'))"
proof
  assume h: "branchesNoShorter a b"
  show "\<forall>k c. map_of a k = Some c \<longrightarrow> (\<exists>c'. map_of b k = Some c' \<and> length c \<le> length c')"
  proof (intro allI impI)
    fix k c assume kc: "map_of a k = Some c"
    then have "k \<in> set (map fst a)" by (simp only: Some_keys)
    with h have "case map_of b k of None \<Rightarrow> False
                 | Some c' \<Rightarrow> length (canonicalBranches a k) \<le> length c'"
      unfolding branchesNoShorter_def by blast
    with kc show "\<exists>c'. map_of b k = Some c' \<and> length c \<le> length c'"
      by (cases "map_of b k") (simp_all add: canonicalBranches_def)
  qed
next
  assume h: "\<forall>k c. map_of a k = Some c \<longrightarrow> (\<exists>c'. map_of b k = Some c' \<and> length c \<le> length c')"
  show "branchesNoShorter a b"
    unfolding branchesNoShorter_def
  proof
    fix k assume "k \<in> set (map fst a)"
    then obtain c where c: "map_of a k = Some c" using keys_Some by fastforce
    with h obtain c' where "map_of b k = Some c'" "length c \<le> length c'" by blast
    with c show "case map_of b k of None \<Rightarrow> False
                 | Some c' \<Rightarrow> length (canonicalBranches a k) \<le> length c'"
      by (simp add: canonicalBranches_def)
  qed
qed

lemma branchesNoShorter_refl: "branchesNoShorter b b"
  by (simp add: branchesNoShorter_iff)

lemma branchesNoShorter_trans:
  assumes "branchesNoShorter a b" and "branchesNoShorter b c"
  shows "branchesNoShorter a c"
  using assms unfolding branchesNoShorter_iff by (meson le_trans)

lemma branchesNoShorter_distillLine:
  "branchesNoShorter brs (snd (distillLine lr ls brs inc))"
  unfolding branchesNoShorter_iff
  by (simp add: map_of_distillLine_branches length_accumulateBranches canonicalBranches_def)

lemma branchesNoShorter_lines:
  "branchesNoShorter brs
     (snd (foldl (\<lambda>(ls, bs) line. distillLine line ls bs inc) (ls, brs) lrs))"
proof (induction lrs arbitrary: ls brs)
  case Nil
  show ?case by (simp add: branchesNoShorter_refl)
next
  case (Cons lr lrs)
  obtain ls' brs' where step: "distillLine lr ls brs inc = (ls', brs')" by (cases "distillLine lr ls brs inc")
  have "branchesNoShorter brs brs'"
    using branchesNoShorter_distillLine [of brs lr ls inc] by (simp add: step)
  moreover have "branchesNoShorter brs'
     (snd (foldl (\<lambda>(ls, bs) line. distillLine line ls bs inc) (ls', brs') lrs))"
    by (rule Cons.IH)
  ultimately show ?case
    by (simp add: step branchesNoShorter_trans)
qed

lemma map_of_distillSource:
  "map_of (distillSource r S inc) sf =
     (if sf = file_abs r
      then let d = (case map_of S sf of
                      None \<Rightarrow> \<lparr>src_functions = [], src_branches = [], src_lines = []\<rparr>
                    | Some d \<Rightarrow> d);
               lb = foldl (\<lambda>(ls, bs) line. distillLine line ls bs inc)
                      (src_lines d, src_branches d) (raw_lines r)
           in Some \<lparr>src_functions = foldl (\<lambda>fs function. distillFunction function fs)
                                       (src_functions d) (raw_functions r),
                    src_branches = snd lb, src_lines = fst lb\<rparr>
      else map_of S sf)"
proof (cases "map_of S (file_abs r)")
  case None
  then show ?thesis by (simp add: distillSource_def Let_def update_conv')
next
  case (Some d)
  then show ?thesis by (simp add: distillSource_def Let_def update_conv')
qed

lemma reportNoShorter_iff:
  "reportNoShorter A B \<longleftrightarrow>
     (\<forall>sf d. map_of A sf = Some d \<longrightarrow>
        (\<exists>d'. map_of B sf = Some d'
              \<and> branchesNoShorter (src_branches d) (src_branches d')))"
proof
  assume h: "reportNoShorter A B"
  show "\<forall>sf d. map_of A sf = Some d \<longrightarrow>
        (\<exists>d'. map_of B sf = Some d'
              \<and> branchesNoShorter (src_branches d) (src_branches d'))"
  proof (intro allI impI)
    fix sf d assume kc: "map_of A sf = Some d"
    then have "sf \<in> set (map fst A)" by (simp only: Some_keys)
    with h have "case map_of B sf of None \<Rightarrow> False
        | Some d' \<Rightarrow> (case map_of A sf of None \<Rightarrow> False
            | Some d \<Rightarrow> branchesNoShorter (src_branches d) (src_branches d'))"
      unfolding reportNoShorter_def by blast
    with kc show "\<exists>d'. map_of B sf = Some d'
              \<and> branchesNoShorter (src_branches d) (src_branches d')"
      by (cases "map_of B sf") simp_all
  qed
next
  assume h: "\<forall>sf d. map_of A sf = Some d \<longrightarrow>
        (\<exists>d'. map_of B sf = Some d'
              \<and> branchesNoShorter (src_branches d) (src_branches d'))"
  show "reportNoShorter A B"
    unfolding reportNoShorter_def
  proof
    fix sf assume "sf \<in> set (map fst A)"
    then obtain d where d: "map_of A sf = Some d" using keys_Some by fastforce
    with h obtain d' where "map_of B sf = Some d'"
        "branchesNoShorter (src_branches d) (src_branches d')" by blast
    with d show "case map_of B sf of None \<Rightarrow> False
        | Some d' \<Rightarrow> (case map_of A sf of None \<Rightarrow> False
            | Some d \<Rightarrow> branchesNoShorter (src_branches d) (src_branches d'))"
      by simp
  qed
qed

lemma reportNoShorter_refl: "reportNoShorter S S"
  by (simp add: reportNoShorter_iff branchesNoShorter_refl)

lemma reportNoShorter_trans:
  assumes "reportNoShorter a b" and "reportNoShorter b c"
  shows "reportNoShorter a c"
  using assms unfolding reportNoShorter_iff by (meson branchesNoShorter_trans)

lemma reportNoShorter_distillSource: "reportNoShorter S (distillSource r S inc)"
  unfolding reportNoShorter_iff
  by (simp add: map_of_distillSource Let_def branchesNoShorter_lines branchesNoShorter_refl)

lemma reportNoShorter_foldl:
  "reportNoShorter S (foldl (\<lambda>sources source. distillSource source sources inc) S rs)"
proof (induction rs arbitrary: S)
  case Nil
  show ?case by (simp add: reportNoShorter_refl)
next
  case (Cons r rs)
  show ?case
    using reportNoShorter_distillSource [of S r inc] Cons.IH [of "distillSource r S inc"]
    by (auto intro: reportNoShorter_trans)
qed

lemma reportNoShorter_distillReport:
  "reportNoShorter (distillReport rs inc) (distillReport (rs @ rs') inc)"
  by (simp add: distillReport_def reportNoShorter_foldl)

lemma nth_accumulateBranches:
  "j < length (accumulateBranches old incoming) \<Longrightarrow>
   accumulateBranches old incoming ! j
     = (if j < length old then old ! j else 0)
       + (if j < length incoming then br_count (incoming ! j) else 0)"
  by (auto simp: accumulateBranches_def nth_append)

lemma incoming_line7_len2: "incomingBranches line7_len2 inc = raw_branches line7_len2"
  by (simp add: incomingBranches_def filterExceptionalBranches_def line7_len2_def)

lemma incoming_line7_len4: "incomingBranches line7_len4 inc = raw_branches line7_len4"
  by (simp add: incomingBranches_def filterExceptionalBranches_def line7_len4_def)

lemma distillLine_incoming:
  "snd (distillLine lr ls brs inc)
     = branchLoop (line_number lr) (length (incomingBranches lr inc)) 0 (incomingBranches lr inc) brs"
  by (simp add: distillLine_def Let_def incomingBranches_def)

lemma example_2_then_4:
  "snd (distillLine line7_len4 ls' (snd (distillLine line7_len2 ls [] inc)) inc)
     = [(7, [11, 22, 30, 40])]"
  unfolding distillLine_incoming incoming_line7_len2 incoming_line7_len4
  by (simp add: line7_len2_def line7_len4_def branchStep_def)

lemma example_4_then_2:
  "snd (distillLine line7_len2 ls' (snd (distillLine line7_len4 ls [] inc)) inc)
     = [(7, [11, 22, 30, 40])]"
  unfolding distillLine_incoming incoming_line7_len2 incoming_line7_len4
  by (simp add: line7_len2_def line7_len4_def branchStep_def)



text \<open>
  C2. \<open>distillLine\<close> leaves the branch dictionary alone when the incoming (filtered) list
  is empty; otherwise the entry of its line becomes the canonical list, zero-extended to
  the length of the incoming list if shorter, with the incoming counts added index by
  index, and no other line changes. The resulting list has the larger of the two lengths.
  Hence no branch list gets shorter: not in \<open>distillLine\<close>, not in \<open>distillSource\<close>, and
  not between the report distilled from some records and the report distilled from more.
  Lists of lengths 2 and 4 for the same line give a list of length 4, in either order.
\<close>

theorem distill_branches_zero_extend:
  "map_of (snd (distillLine lr ls brs inc)) k
     = (if k = line_number lr \<and> incomingBranches lr inc \<noteq> []
        then Some (accumulateBranches (canonicalBranches brs (line_number lr))
                     (incomingBranches lr inc))
        else map_of brs k)
   \<and> length (accumulateBranches old incoming) = max (length old) (length incoming)
   \<and> (\<forall>j < length (accumulateBranches old incoming).
         accumulateBranches old incoming ! j
           = (if j < length old then old ! j else 0)
             + (if j < length incoming then br_count (incoming ! j) else 0))
   \<and> branchesNoShorter brs (snd (distillLine lr ls brs inc))
   \<and> reportNoShorter S (distillSource r S inc)
   \<and> reportNoShorter (distillReport rs inc) (distillReport (rs @ rs') inc)
   \<and> snd (distillLine line7_len4 ls2 (snd (distillLine line7_len2 ls1 [] inc)) inc)
       = [(7, [11, 22, 30, 40])]
   \<and> snd (distillLine line7_len2 ls2 (snd (distillLine line7_len4 ls1 [] inc)) inc)
       = [(7, [11, 22, 30, 40])]"
  using map_of_distillLine_branches [of lr ls brs inc k]
        length_accumulateBranches [of old incoming]
        nth_accumulateBranches [of _ old incoming]
        branchesNoShorter_distillLine [of brs lr ls inc]
        reportNoShorter_distillSource [of S r inc]
        reportNoShorter_distillReport [of rs inc rs']
        example_2_then_4 [of ls2 ls1 inc]
        example_4_then_2 [of ls2 ls1 inc]
  by blast

theorem distill_branches_zero_extend_witness:
  "(7 :: int) \<in> set (map fst [(7, [1, 2 :: int])])
   \<and> ''/src/a.c'' \<in> set (map fst (distillReport
         [\<lparr>file_abs = ''/src/a.c'', raw_functions = [], raw_lines = [line7_len2]\<rparr>] False))
   \<and> (1::nat) < length (accumulateBranches [1, 2] (raw_branches line7_len4))
   \<and> accumulateBranches [1, 2] (raw_branches line7_len4) ! 1 = 22
   \<and> length (accumulateBranches [1, 2] (raw_branches line7_len4)) = 4
   \<and> branchesNoShorter [(7, [1, 2])] (snd (distillLine line7_len4 [] [(7, [1, 2])] False))
   \<and> map_of (snd (distillLine line7_len4 [] [(7, [1, 2])] False)) 7
       = Some (accumulateBranches [1, 2] (raw_branches line7_len4))
   \<and> reportNoShorter
        (distillReport
           [\<lparr>file_abs = ''/src/a.c'', raw_functions = [], raw_lines = [line7_len2]\<rparr>] False)
        (distillReport
           ([\<lparr>file_abs = ''/src/a.c'', raw_functions = [], raw_lines = [line7_len2]\<rparr>]
            @ [\<lparr>file_abs = ''/src/a.c'', raw_functions = [], raw_lines = [line7_len4]\<rparr>])
           False)
   \<and> reportNoShorter
        (distillReport
           [\<lparr>file_abs = ''/src/a.c'', raw_functions = [], raw_lines = [line7_len2]\<rparr>] False)
        (distillSource
           \<lparr>file_abs = ''/src/a.c'', raw_functions = [], raw_lines = [line7_len4]\<rparr>
           (distillReport
              [\<lparr>file_abs = ''/src/a.c'', raw_functions = [], raw_lines = [line7_len2]\<rparr>]
              False)
           False)"
proof -
  let ?r2 = "\<lparr>file_abs = ''/src/a.c'', raw_functions = [], raw_lines = [line7_len2]\<rparr>"
  let ?r4 = "\<lparr>file_abs = ''/src/a.c'', raw_functions = [], raw_lines = [line7_len4]\<rparr>"
  note t = distill_branches_zero_extend
             [of line7_len4 "[]" "[(7, [1, 2])]" False 7 "[1, 2]" "raw_branches line7_len4"
                 "distillReport [?r2] False" ?r4 "[?r2]" "[?r4]"]
  have k: "7 \<in> set (map fst [(7 :: int, [1, 2 :: int])])" by simp
  have sf: "''/src/a.c'' \<in> set (map fst (distillReport [?r2] False))"
    by (simp add: distillReport_def distillSource_def Let_def)
  have len: "length (accumulateBranches [1, 2] (raw_branches line7_len4)) = 4"
    by (simp add: accumulateBranches_def line7_len4_def)
  then have j: "(1::nat) < length (accumulateBranches [1, 2] (raw_branches line7_len4))"
    by simp
  from t j have "accumulateBranches [1, 2] (raw_branches line7_len4) ! 1
           = (if (1::nat) < length [1, 2 :: int] then [1, 2] ! 1 else 0)
             + (if (1::nat) < length (raw_branches line7_len4)
                then br_count (raw_branches line7_len4 ! 1) else 0)"
    by blast
  then have n: "accumulateBranches [1, 2] (raw_branches line7_len4) ! 1 = 22"
    by (simp add: line7_len4_def)
  from t have b: "branchesNoShorter [(7, [1, 2])]
                    (snd (distillLine line7_len4 [] [(7, [1, 2])] False))"
    by blast
  from t have "map_of (snd (distillLine line7_len4 [] [(7, [1, 2])] False)) 7
     = (if 7 = line_number line7_len4 \<and> incomingBranches line7_len4 False \<noteq> []
        then Some (accumulateBranches (canonicalBranches [(7, [1, 2])] (line_number line7_len4))
                     (incomingBranches line7_len4 False))
        else map_of [(7, [1, 2])] (7 :: int))"
    by (rule conjunct1)
  then have m: "map_of (snd (distillLine line7_len4 [] [(7, [1, 2])] False)) 7
       = Some (accumulateBranches [1, 2] (raw_branches line7_len4))"
    unfolding incoming_line7_len4 by (simp add: line7_len4_def canonicalBranches_def)
  from t have rp: "reportNoShorter (distillReport [?r2] False)
                     (distillReport ([?r2] @ [?r4]) False)"
    by blast
  from t have rs: "reportNoShorter (distillReport [?r2] False)
                     (distillSource ?r4 (distillReport [?r2] False) False)"
    by blast
  from k sf j n len b m rp rs show ?thesis by blast
qed

subsection \<open>Filtering exceptional branches\<close>

lemma filterLoop_eq:
  "filterLoop bs kept exc = (if noiseHit bs kept exc then [] else kept @ dropThrowPairs bs)"
  by (induction bs kept exc rule: filterLoop.induct)
     (auto simp: noiseCondition_def)

lemma filterExceptionalBranches_eq:
  "filterExceptionalBranches bs = (if noiseHit bs [] False then [] else dropThrowPairs bs)"
  by (simp add: filterExceptionalBranches_def filterLoop_eq)




lemma noiseHit_append:
  "even (length pre) \<Longrightarrow>
   noiseHit (pre @ xs) kept exc
     = (noiseHit pre kept exc
        \<or> noiseHit xs (kept @ dropThrowPairs pre) (exc \<or> hasThrowPair pre))"
  by (induction pre kept exc rule: noiseHit.induct) auto

lemma noiseHit_split:
  "noiseHit bs kept exc \<Longrightarrow>
   \<exists>pre b1 b2 rest. bs = pre @ b1 # b2 # rest \<and> even (length pre) \<and> \<not> throw b2
      \<and> noiseCondition (kept @ dropThrowPairs pre) (exc \<or> hasThrowPair pre) b1 b2"
proof (induction bs kept exc rule: noiseHit.induct)
  case (1 kept exc)
  then show ?case by simp
next
  case (2 b kept exc)
  then show ?case by simp
next
  case (3 b1 b2 rest kept exc)
  show ?case
  proof (cases "throw b2")
    case True
    with 3 obtain pre c1 c2 rest' where
      "rest = pre @ c1 # c2 # rest'" "even (length pre)" "\<not> throw c2"
      "noiseCondition (kept @ dropThrowPairs pre) (True \<or> hasThrowPair pre) c1 c2"
      by auto
    with True have "b1 # b2 # rest = (b1 # b2 # pre) @ c1 # c2 # rest' \<and> even (length (b1 # b2 # pre))
        \<and> \<not> throw c2
        \<and> noiseCondition (kept @ dropThrowPairs (b1 # b2 # pre)) (exc \<or> hasThrowPair (b1 # b2 # pre)) c1 c2"
      by simp
    then show ?thesis by blast
  next
    case False
    show ?thesis
    proof (cases "noiseCondition kept exc b1 b2")
      case True
      with False have "b1 # b2 # rest = [] @ b1 # b2 # rest \<and> even (length ([] :: branch_raw list))
        \<and> \<not> throw b2 \<and> noiseCondition (kept @ dropThrowPairs []) (exc \<or> hasThrowPair []) b1 b2"
        by simp
      then show ?thesis by blast
    next
      case nc: False
      with False 3 obtain pre c1 c2 rest' where
        "rest = pre @ c1 # c2 # rest'" "even (length pre)" "\<not> throw c2"
        "noiseCondition ((kept @ [b1, b2]) @ dropThrowPairs pre) (exc \<or> hasThrowPair pre) c1 c2"
        by auto
      with False have "b1 # b2 # rest = (b1 # b2 # pre) @ c1 # c2 # rest' \<and> even (length (b1 # b2 # pre))
        \<and> \<not> throw c2
        \<and> noiseCondition (kept @ dropThrowPairs (b1 # b2 # pre)) (exc \<or> hasThrowPair (b1 # b2 # pre)) c1 c2"
        by simp
      then show ?thesis by blast
    qed
  qed
qed

lemma noiseHit_at:
  assumes "even (length pre)" "\<not> throw b2"
      "noiseCondition (kept @ dropThrowPairs pre) (exc \<or> hasThrowPair pre) b1 b2"
  shows "noiseHit (pre @ b1 # b2 # rest) kept exc"
  using assms by (simp add: noiseHit_append)




text \<open>
  C4, as stated, fails: two zero/zero pairs are retained, the third pair is dropped as an
  exception artifact, and the result is the four retained branches, not the empty list.
\<close>

theorem retained_zero_pairs_not_emptied:
  "filterExceptionalBranches
     [branch 0 False, branch 0 False, branch 0 False, branch 0 False,
      branch 0 False, branch 0 True]
   = [branch 0 False, branch 0 False, branch 0 False, branch 0 False]"
  by (simp add: filterExceptionalBranches_def emptyBranchSet_def matchingBranchSet_def)

text \<open>
  C4, amended. The filtered list is returned empty exactly through the test of line 309:
  at a pair \<open>b1, b2\<close> that is not dropped, when some earlier pair was dropped as an
  exception artifact, \<open>b1\<close> and \<open>b2\<close> both have count zero, at least two branches have
  been retained and the last two retained branches have equal counts. Whenever the result
  is empty, either nothing was to be retained or the list has such a pair.
\<close>

theorem filter_initializer_noise:
  "(even (length pre) \<and> \<not> throw b2
      \<and> noiseCondition (dropThrowPairs pre) (hasThrowPair pre) b1 b2
      \<longrightarrow> filterExceptionalBranches (pre @ b1 # b2 # rest) = [])
   \<and> (filterExceptionalBranches bs = [] \<longrightarrow>
        dropThrowPairs bs = []
        \<or> (\<exists>pre b1 b2 rest. bs = pre @ b1 # b2 # rest \<and> even (length pre) \<and> \<not> throw b2
              \<and> noiseCondition (dropThrowPairs pre) (hasThrowPair pre) b1 b2))
   \<and> noiseCondition kept dropped_before c1 c2
        = (dropped_before \<and> br_count c1 = 0 \<and> br_count c2 = 0 \<and> 2 \<le> length kept
           \<and> br_count (kept ! (length kept - 1)) = br_count (kept ! (length kept - 2)))"
proof (intro conjI impI)
  show "filterExceptionalBranches (pre @ b1 # b2 # rest) = []"
    if "even (length pre) \<and> \<not> throw b2
        \<and> noiseCondition (dropThrowPairs pre) (hasThrowPair pre) b1 b2"
    using that noiseHit_at [of pre b2 "[]" False b1 rest]
    by (simp add: filterExceptionalBranches_eq)
  show "dropThrowPairs bs = []
        \<or> (\<exists>pre b1 b2 rest. bs = pre @ b1 # b2 # rest \<and> even (length pre) \<and> \<not> throw b2
              \<and> noiseCondition (dropThrowPairs pre) (hasThrowPair pre) b1 b2)"
    if "filterExceptionalBranches bs = []"
  proof (cases "noiseHit bs [] False")
    case True
    from noiseHit_split [OF True] show ?thesis by simp
  next
    case False
    with that show ?thesis by (simp add: filterExceptionalBranches_eq)
  qed
  show "noiseCondition kept dropped_before c1 c2
        = (dropped_before \<and> br_count c1 = 0 \<and> br_count c2 = 0 \<and> 2 \<le> length kept
           \<and> br_count (kept ! (length kept - 1)) = br_count (kept ! (length kept - 2)))"
    by (simp add: noiseCondition_def emptyBranchSet_def matchingBranchSet_def)
qed

theorem filter_initializer_noise_witness:
  "even (length [branch 1 False, branch 1 False, branch 7 False, branch 0 True])
   \<and> \<not> throw (branch 0 False)
   \<and> noiseCondition
        (dropThrowPairs [branch 1 False, branch 1 False, branch 7 False, branch 0 True])
        (hasThrowPair [branch 1 False, branch 1 False, branch 7 False, branch 0 True])
        (branch 0 False) (branch 0 False)
   \<and> filterExceptionalBranches
        ([branch 1 False, branch 1 False, branch 7 False, branch 0 True]
         @ branch 0 False # branch 0 False # [branch 5 False]) = []
   \<and> dropThrowPairs
        ([branch 1 False, branch 1 False, branch 7 False, branch 0 True]
         @ branch 0 False # branch 0 False # [branch 5 False]) \<noteq> []
   \<and> (\<exists>pre b1 b2 rest.
         [branch 1 False, branch 1 False, branch 7 False, branch 0 True]
           @ branch 0 False # branch 0 False # [branch 5 False] = pre @ b1 # b2 # rest
         \<and> even (length pre) \<and> \<not> throw b2
         \<and> noiseCondition (dropThrowPairs pre) (hasThrowPair pre) b1 b2)"
proof -
  let ?pre = "[branch 1 False, branch 1 False, branch 7 False, branch 0 True]"
  let ?bs = "?pre @ branch 0 False # branch 0 False # [branch 5 False]"
  have h1: "even (length ?pre)" by simp
  have h2: "\<not> throw (branch 0 False)" by simp
  have h3: "noiseCondition (dropThrowPairs ?pre) (hasThrowPair ?pre) (branch 0 False) (branch 0 False)"
    by (simp add: noiseCondition_def emptyBranchSet_def matchingBranchSet_def)
  from filter_initializer_noise [of ?pre "branch 0 False" "branch 0 False" "[branch 5 False]"] h1 h2 h3
  have c: "filterExceptionalBranches ?bs = []" by blast
  have d: "dropThrowPairs ?bs \<noteq> []" by simp
  let ?E = "\<exists>pre b1 b2 rest. ?bs = pre @ b1 # b2 # rest \<and> even (length pre) \<and> \<not> throw b2
              \<and> noiseCondition (dropThrowPairs pre) (hasThrowPair pre) b1 b2"
  from filter_initializer_noise [where bs = ?bs]
  have "filterExceptionalBranches ?bs = [] \<longrightarrow> dropThrowPairs ?bs = [] \<or> ?E"
    by (rule conjunct1 [OF conjunct2])
  then have "dropThrowPairs ?bs = [] \<or> ?E" using c by (rule mp)
  then have e: ?E
  proof
    assume "dropThrowPairs ?bs = []"
    with d show ?E by (rule notE)
  next
    assume ?E
    then show ?E .
  qed
  show ?thesis
    by (intro conjI) (fact h1 h2 h3 c d e)+
qed

subsection \<open>Chunks for the worker threads\<close>

lemma chunks_from_Nil [simp]: "chunks_from [] n = []"
  by (simp add: chunks_from.simps)

lemma chunks_from_step:
  "l \<noteq> [] \<Longrightarrow> 0 < n \<Longrightarrow> chunks_from l n = take n l # chunks_from (drop n l) n"
  by (subst chunks_from.simps) simp

lemma concat_chunks_from: "0 < n \<Longrightarrow> concat (chunks_from l n) = l"
proof (induction l n rule: chunks_from.induct)
  case (1 l n)
  show ?case
  proof (cases "l = []")
    case True
    then show ?thesis by simp
  next
    case False
    with 1 show ?thesis by (simp add: chunks_from_step)
  qed
qed

lemma length_chunks_from: "0 < n \<Longrightarrow> length (chunks_from l n) = (length l + n - 1) div n"
proof (induction l n rule: chunks_from.induct)
  case (1 l n)
  show ?case
  proof (cases "l = []")
    case True
    with 1 show ?thesis by simp
  next
    case False
    then have pos: "0 < length l" by simp
    from 1 False have ih: "length (chunks_from (drop n l) n) = (length l - n + n - 1) div n"
      by simp
    show ?thesis
    proof (cases "n \<le> length l")
      case True
      have e1: "length l + n - 1 = (length l - 1) + n" using pos by arith
      have e2: "length l - n + n - 1 = length l - 1" using True by arith
      have "(length l + n - 1) div n = Suc ((length l - n + n - 1) div n)"
        unfolding e1 e2 using 1(2) by simp
      with \<open>l \<noteq> []\<close> 1(2) ih show ?thesis by (simp add: chunks_from_step)
    next
      case False
      then have "drop n l = []" by simp
      moreover have "(length l + n - 1) div n = 1"
      proof -
        have e1: "length l + n - 1 = (length l - 1) + n" using pos by arith
        have "length l - 1 < n" using False by arith
        then have "(length l - 1) div n = 0" by simp
        then show ?thesis unfolding e1 using 1(2) by simp
      qed
      ultimately show ?thesis using \<open>l \<noteq> []\<close> 1(2) by (simp add: chunks_from_step)
    qed
  qed
qed

lemma nth_chunks_from:
  "0 < n \<Longrightarrow> k < length (chunks_from l n) \<Longrightarrow> chunks_from l n ! k = take n (drop (k * n) l)"
proof (induction l n arbitrary: k rule: chunks_from.induct)
  case (1 l n)
  show ?case
  proof (cases "l = []")
    case True
    with 1 show ?thesis by simp
  next
    case False
    show ?thesis
    proof (cases k)
      case 0
      with False 1(2) show ?thesis by (simp add: chunks_from_step)
    next
      case (Suc k')
      with 1 False have "chunks_from (drop n l) n ! k' = take n (drop (k' * n) (drop n l))"
        by (simp add: chunks_from_step)
      with Suc False 1(2) show ?thesis by (simp add: chunks_from_step add.commute)
    qed
  qed
qed

lemma ceil_not_dvd:
  fixes n :: nat and jobs :: int
  assumes "1 \<le> jobs" "\<not> jobs dvd int n"
  shows "\<lceil>real n / real_of_int jobs\<rceil> = int n div jobs + 1"
proof -
  let ?q = "int n div jobs" and ?r = "int n mod jobs"
  have j: "0 < jobs" using assms by simp
  have r0: "0 \<le> ?r" using j by simp
  have "?r \<noteq> 0" using assms(2) by (simp add: dvd_eq_mod_eq_0)
  with r0 have r1: "0 < ?r" by simp
  have r2: "?r < jobs" using j by simp
  have "real_of_int (jobs * ?q + ?r) = real_of_int (int n)" by (simp only: mult_div_mod_eq)
  then have "real_of_int jobs * real_of_int ?q + real_of_int ?r = real n"
    by (simp only: of_int_add of_int_mult of_int_of_nat_eq)
  then have x: "real n / real_of_int jobs = real_of_int ?q + real_of_int ?r / real_of_int jobs"
    using j by (simp add: field_simps)
  have f1: "0 < real_of_int ?r / real_of_int jobs" using r1 j by simp
  have f2: "real_of_int ?r / real_of_int jobs < 1" using r2 j by simp
  show ?thesis
  proof (rule ceiling_unique)
    show "real_of_int (?q + 1) - 1 < real n / real_of_int jobs" unfolding x using f1 by simp
    show "real n / real_of_int jobs \<le> real_of_int (?q + 1)" unfolding x using f2 by simp
  qed
qed

lemma ceil_dvd:
  fixes n :: nat and jobs :: int
  assumes "1 \<le> jobs" "jobs dvd int n"
  shows "\<lceil>real n / real_of_int jobs\<rceil> = int n div jobs"
proof -
  from assms(2) obtain k where k: "int n = jobs * k" by (auto simp: dvd_def)
  have j: "jobs \<noteq> 0" using assms by simp
  from k have "real_of_int (int n) = real_of_int (jobs * k)" by (simp only:)
  then have "real n = real_of_int jobs * real_of_int k"
    by (simp only: of_int_mult of_int_of_nat_eq)
  then have "real n / real_of_int jobs = real_of_int k" using j by simp
  moreover from k j have "int n div jobs = k" by simp
  ultimately show ?thesis by simp
qed

lemma chunkSize_pos_jobs:
  "1 \<le> jobs \<Longrightarrow> chunkSize m n jobs = Inr (max m (int n div jobs + 1))"
  by (simp add: chunkSize_def int_truediv_def)

lemma chunk_nonempty:
  assumes "0 < n" "k < length (chunks_from l n)"
  shows "chunks_from l n ! k \<noteq> []"
proof -
  from assms have "k < (length l + n - 1) div n" by (simp add: length_chunks_from)
  then have "Suc k \<le> (length l + n - 1) div n" by simp
  then have "Suc k * n \<le> ((length l + n - 1) div n) * n" by (rule mult_le_mono1)
  also have "\<dots> \<le> length l + n - 1" by simp
  finally have "k * n + n \<le> length l + n - 1" by (simp add: add.commute)
  then have "k * n < length l" using assms(1) by arith
  with assms show ?thesis by (simp add: nth_chunks_from)
qed

text \<open>
  C5, as stated, fails: ten files and two workers with minimum chunk size 1 give chunks of
  size 6 (one of six files, one of four), where \<open>max(1, ceil(10 / 2))\<close> is 5.
\<close>

theorem chunk_size_not_ceiling:
  "chunkSize 1 (length files10) 2 = Inr 6
   \<and> specChunkSize 1 (length files10) 2 = 5
   \<and> processGcdas_threads 2 files10 1
       = Inr [[''f0'', ''f1'', ''f2'', ''f3'', ''f4'', ''f5''], [''f6'', ''f7'', ''f8'', ''f9'']]"
  by (simp add: chunkSize_def int_truediv_def specChunkSize_def processGcdas_threads_def
        chunks_def chunks_from.simps files10_def)

lemma scan_chunks_same_rule:
  "scanExclusionMarkers_chunks sources jobs m = processGcdas_threads jobs (map fst sources) m"
  by (simp add: scanExclusionMarkers_chunks_def processGcdas_threads_def)

text \<open>
  C5, amended. For a non-empty list and at least one worker, both fan-out phases cut
  their list into contiguous chunks of size
  \<open>max(minChunkSize, floor(totalFiles / workerCount) + 1)\<close>, one worker per chunk: the
  chunks concatenate to the list, chunk \<open>k\<close> is the slice of that size at \<open>k\<close> times the
  size, no chunk is empty, and their number is the list length divided by the size,
  rounded up. The size is \<open>max(minChunkSize, ceil(totalFiles / workerCount))\<close> exactly when
  the worker count does not divide the list length or the minimum chunk size is larger
  than that ceiling; when the worker count divides the list length the size is
  \<open>max(minChunkSize, totalFiles / workerCount + 1)\<close>.
\<close>

theorem chunk_partition:
  assumes "1 \<le> jobs" and "coverage_files \<noteq> []"
  shows "chunkSize m (length coverage_files) jobs
           = Inr (max m (int (length coverage_files) div jobs + 1))
    \<and> (\<not> jobs dvd int (length coverage_files) \<longrightarrow>
          chunkSize m (length coverage_files) jobs
            = Inr (specChunkSize m (length coverage_files) jobs))
    \<and> (jobs dvd int (length coverage_files) \<longrightarrow>
          chunkSize m (length coverage_files) jobs
            = Inr (max m (\<lceil>real (length coverage_files) / real_of_int jobs\<rceil> + 1)))
    \<and> (chunkSize m (length coverage_files) jobs
           = Inr (specChunkSize m (length coverage_files) jobs)
         \<longleftrightarrow> \<not> jobs dvd int (length coverage_files)
             \<or> \<lceil>real (length coverage_files) / real_of_int jobs\<rceil> < m)
    \<and> (\<exists>cs cks. 0 < cs \<and> int cs = max m (int (length coverage_files) div jobs + 1)
          \<and> processGcdas_threads jobs coverage_files m = Inr cks
          \<and> concat cks = coverage_files
          \<and> length cks = (length coverage_files + cs - 1) div cs
          \<and> (\<forall>k < length cks.
                cks ! k = take cs (drop (k * cs) coverage_files) \<and> cks ! k \<noteq> []))
    \<and> scanExclusionMarkers_chunks sources jobs m
          = processGcdas_threads jobs (map fst sources) m"
proof (intro conjI impI)
  let ?n = "length coverage_files"
  let ?c = "max m (int ?n div jobs + 1)"
  show size: "chunkSize m ?n jobs = Inr ?c"
    using assms(1) by (rule chunkSize_pos_jobs)
  show "chunkSize m ?n jobs = Inr (specChunkSize m ?n jobs)" if "\<not> jobs dvd int ?n"
    using ceil_not_dvd [OF assms(1) that] by (simp add: size specChunkSize_def)
  show "chunkSize m ?n jobs = Inr (max m (\<lceil>real ?n / real_of_int jobs\<rceil> + 1))"
    if "jobs dvd int ?n"
    using ceil_dvd [OF assms(1) that] by (simp add: size)
  show "chunkSize m ?n jobs = Inr (specChunkSize m ?n jobs)
         \<longleftrightarrow> \<not> jobs dvd int ?n \<or> \<lceil>real ?n / real_of_int jobs\<rceil> < m"
  proof (cases "jobs dvd int ?n")
    case True
    have c: "\<lceil>real ?n / real_of_int jobs\<rceil> = int ?n div jobs"
      using assms(1) True by (rule ceil_dvd)
    have "max m (int ?n div jobs + 1) = max m (int ?n div jobs) \<longleftrightarrow> int ?n div jobs < m"
      by (auto simp: max_def)
    with True show ?thesis
      by (simp add: size specChunkSize_def c)
  next
    case False
    have "\<lceil>real ?n / real_of_int jobs\<rceil> = int ?n div jobs + 1"
      using assms(1) False by (rule ceil_not_dvd)
    with False show ?thesis
      by (simp add: size specChunkSize_def)
  qed
  have "0 \<le> int ?n div jobs" using assms(1) by (simp add: pos_imp_zdiv_nonneg_iff)
  then have cpos: "0 < ?c" by simp
  then have npos: "0 < nat ?c" by simp
  have chunks_pos: "chunks l c = Inr (chunks_from l (nat c))" if "0 < c" for l :: "'a list" and c
    using that by (simp add: chunks_def)
  have thr: "processGcdas_threads jobs coverage_files m = Inr (chunks_from coverage_files (nat ?c))"
    unfolding processGcdas_threads_def size using chunks_pos [OF cpos] by simp
  have "0 < nat ?c \<and> int (nat ?c) = ?c
          \<and> processGcdas_threads jobs coverage_files m = Inr (chunks_from coverage_files (nat ?c))
          \<and> concat (chunks_from coverage_files (nat ?c)) = coverage_files
          \<and> length (chunks_from coverage_files (nat ?c)) = (?n + nat ?c - 1) div nat ?c
          \<and> (\<forall>k < length (chunks_from coverage_files (nat ?c)).
                chunks_from coverage_files (nat ?c) ! k
                  = take (nat ?c) (drop (k * nat ?c) coverage_files)
                \<and> chunks_from coverage_files (nat ?c) ! k \<noteq> [])"
  proof (intro conjI allI impI)
    show "0 < nat ?c" by (rule npos)
    show "int (nat ?c) = ?c" using cpos by (simp only: int_nat_eq) simp
    show "processGcdas_threads jobs coverage_files m = Inr (chunks_from coverage_files (nat ?c))"
      by (rule thr)
    show "concat (chunks_from coverage_files (nat ?c)) = coverage_files"
      using npos by (rule concat_chunks_from)
    show "length (chunks_from coverage_files (nat ?c)) = (?n + nat ?c - 1) div nat ?c"
      using npos by (rule length_chunks_from)
    show "chunks_from coverage_files (nat ?c) ! k
            = take (nat ?c) (drop (k * nat ?c) coverage_files)"
      if "k < length (chunks_from coverage_files (nat ?c))" for k
      using npos that by (rule nth_chunks_from)
    show "chunks_from coverage_files (nat ?c) ! k \<noteq> []"
      if "k < length (chunks_from coverage_files (nat ?c))" for k
      using npos that by (rule chunk_nonempty)
  qed
  then show "\<exists>cs cks. 0 < cs \<and> int cs = ?c
          \<and> processGcdas_threads jobs coverage_files m = Inr cks
          \<and> concat cks = coverage_files
          \<and> length cks = (?n + cs - 1) div cs
          \<and> (\<forall>k < length cks.
                cks ! k = take cs (drop (k * cs) coverage_files) \<and> cks ! k \<noteq> [])"
    by blast
  show "scanExclusionMarkers_chunks sources jobs m
          = processGcdas_threads jobs (map fst sources) m"
    by (rule scan_chunks_same_rule)
qed

theorem chunk_partition_witness:
  "(1 :: int) \<le> 3 \<and> files10 \<noteq> []
   \<and> \<not> (3 :: int) dvd int (length files10)
   \<and> chunkSize 1 (length files10) 3 = Inr (specChunkSize 1 (length files10) 3)
   \<and> chunkSize 1 (length files10) 3 = Inr 4
   \<and> (2 :: int) dvd int (length files10)
   \<and> chunkSize 1 (length files10) 2
       = Inr (max 1 (\<lceil>real (length files10) / real_of_int 2\<rceil> + 1))
   \<and> \<lceil>real (length files10) / real_of_int 2\<rceil> < (6 :: int)
   \<and> chunkSize 6 (length files10) 2 = Inr (specChunkSize 6 (length files10) 2)
   \<and> \<not> \<lceil>real (length files10) / real_of_int 2\<rceil> < (1 :: int)
   \<and> chunkSize 1 (length files10) 2 \<noteq> Inr (specChunkSize 1 (length files10) 2)"
proof -
  have h1: "(1 :: int) \<le> 3" by simp
  have h1': "(1 :: int) \<le> 2" by simp
  have h2: "files10 \<noteq> []" by (simp add: files10_def)
  have h3: "\<not> (3 :: int) dvd int (length files10)" by (simp add: files10_def)
  have h4: "(2 :: int) dvd int (length files10)" by (simp add: files10_def)
  note t3 = chunk_partition [OF h1 h2, of 1 "[]"]
  note t2 = chunk_partition [OF h1' h2, of 1 "[]"]
  from t3 h3 have c1: "chunkSize 1 (length files10) 3 = Inr (specChunkSize 1 (length files10) 3)"
    by blast
  from t3 have "chunkSize 1 (length files10) 3 = Inr (max 1 (int (length files10) div 3 + 1))"
    by (rule conjunct1)
  then have c2: "chunkSize 1 (length files10) 3 = Inr 4" by (simp add: files10_def)
  from t2 h4 have c3: "chunkSize 1 (length files10) 2
       = Inr (max 1 (\<lceil>real (length files10) / real_of_int 2\<rceil> + 1))"
    by blast
  have h5: "\<lceil>real (length files10) / real_of_int 2\<rceil> < (6 :: int)"
    by (simp add: files10_def)
  have h6: "\<not> \<lceil>real (length files10) / real_of_int 2\<rceil> < (1 :: int)"
    by (simp add: files10_def)
  note t6 = chunk_partition [OF h1' h2, of 6 "[]"]
  from t6 h5 have c4: "chunkSize 6 (length files10) 2 = Inr (specChunkSize 6 (length files10) 2)"
    by blast
  from t2 h4 h6
  have c5: "chunkSize 1 (length files10) 2 \<noteq> Inr (specChunkSize 1 (length files10) 2)"
    by blast
  show ?thesis
    by (intro conjI) (fact h1 h2 h3 h4 h5 h6 c1 c2 c3 c4 c5)+
qed

section \<open>Properties of the exclusion scanner\<close>

lemma contains_append: "contains a s \<Longrightarrow> contains a (t @ s)"
  by (induction t) (auto)














text \<open>
  C7. With an include list \<open>["if"]\<close> and an exclude list \<open>["assert"]\<close>, a line
  \<open>assert(x);\<close> that has a branch entry meets both conditions: the include filter deletes
  the entry and the exclude filter's \<open>del\<close> then raises \<open>KeyError\<close>, which ends the worker.
  Either filter alone deletes the entry without an error.
\<close>

theorem prefix_filters_double_delete:
  "scanLine [''assert''] [''if''] 1 ''  assert(x);'' assert_state
     = (Some KeyError, assert_state\<lparr>st_data := (st_data assert_state)\<lparr>src_branches := []\<rparr>\<rparr>)
   \<and> scanLine [''assert''] [] 1 ''  assert(x);'' assert_state
     = (None, assert_state\<lparr>st_data := (st_data assert_state)\<lparr>src_branches := []\<rparr>\<rparr>)
   \<and> scanLine [] [''if''] 1 ''  assert(x);'' assert_state
     = (None, assert_state\<lparr>st_data := (st_data assert_state)\<lparr>src_branches := []\<rparr>\<rparr>)
   \<and> fst (exclMarkerWorker (\<lambda>p. Some [''  assert(x);''])
             [(''/src/a.c'', st_data assert_state)] [''/src/a.c''] [''assert''] [''if''])
       = Some KeyError"
  by code_simp

section \<open>Properties of the LCOV output and of the scan's frame\<close>

lemma foldl_fnStep:
  "foldl fnStep (fn, fnda, fn_miss) fs
     = (fn @ map (\<lambda>(f, fd). (start_line fd, f)) fs,
        fnda @ map (\<lambda>(f, fd). (execution_count fd, f)) fs,
        fn_miss + int (length (filter (\<lambda>c. c = 0) (map (\<lambda>(f, fd). execution_count fd) fs))))"
  by (induction fs arbitrary: fn fnda fn_miss) (auto simp: fnStep_def)

lemma foldl_daStep:
  "foldl daStep (da, line_miss) ls
     = (da @ ls, line_miss + int (length (filter (\<lambda>c. c = 0) (map snd ls))))"
  by (induction ls arbitrary: da line_miss) (auto simp: daStep_def)

lemma foldl_brdaStep:
  "foldl (brdaStep line_num) (brda, miss, found) (enumerate k cs)
     = (brda @ map (\<lambda>(i, c). (line_num, i div 2, i, c)) (enumerate k cs),
        miss + int (length (filter (\<lambda>c. c = 0) cs)),
        found + int (length cs))"
  by (induction cs arbitrary: brda miss found k) (auto simp: brdaStep_def)

lemma enumerate_entries:
  "map (\<lambda>(i, c). (line_num, i div 2, i, c)) (enumerate 0 cs)
     = map (\<lambda>i. (line_num, i div 2, i, cs ! i)) [0..<length cs]"
  by (rule nth_equalityI) (simp_all add: nth_enumerate_eq)

lemma foldl_branches:
  "foldl (\<lambda>acc (line_num, branch_counts).
            foldl (brdaStep line_num) acc (enumerate 0 branch_counts))
     (brda, miss, found) bs
     = (brda @ brdaEntries bs,
        miss + int (length (filter (\<lambda>c. c = 0) (allBranches bs))),
        found + int (length (allBranches bs)))"
proof (induction bs arbitrary: brda miss found)
  case Nil
  show ?case by (simp add: brdaEntries_def allBranches_def)
next
  case (Cons b bs)
  obtain line_num cs where b: "b = (line_num, cs)" by (cases b)
  show ?case
    by (simp add: b foldl_brdaStep Cons.IH enumerate_entries brdaEntries_def allBranches_def)
qed

lemma zero_nonzero:
  "int (length cs) - int (length (filter (\<lambda>c. c = 0) cs)) = nonzero cs"
proof -
  have "length cs = length (filter (\<lambda>c. c = 0) cs) + length (filter (\<lambda>c. c \<noteq> 0) cs)"
    using sum_length_filter_compl [of "\<lambda>c. c = 0" cs] by simp
  then show ?thesis by (simp add: nonzero_def)
qed

lemma dumpBranchCoverageToLcovInfo_eq:
  "dumpBranchCoverageToLcovInfo bs
     = map (\<lambda>(l, b, i, c). BRDA l b i c) (sort (brdaEntries bs))
       @ [BRF (int (length (allBranches bs))), BRH (nonzero (allBranches bs))]"
  by (simp add: dumpBranchCoverageToLcovInfo_def foldl_branches zero_nonzero)

lemma lcovBlock_eq:
  "lcovBlock sf data
     = [TN, SF sf]
       @ map (\<lambda>(l, f). FN l f) (sort (fnEntries data))
       @ map (\<lambda>(c, f). FNDA c f) (sort (fndaEntries data))
       @ [FNF (length (src_functions data)),
          FNH (nonzero (map (\<lambda>(f, fd). execution_count fd) (src_functions data)))]
       @ (if src_branches data \<noteq> []
          then map (\<lambda>(l, b, i, c). BRDA l b i c) (sort (brdaEntries (src_branches data)))
               @ [BRF (int (length (allBranches (src_branches data)))),
                  BRH (nonzero (allBranches (src_branches data)))]
          else [])
       @ map (\<lambda>(l, c). DA l c) (sort (src_lines data))
       @ [LF (length (src_lines data)), LH (nonzero (map snd (src_lines data))), EndOfRecord]"
proof -
  have z1: "int (length (src_functions data))
              - int (length (filter (\<lambda>c. c = 0)
                      (map (\<lambda>(f, fd). execution_count fd) (src_functions data))))
            = nonzero (map (\<lambda>(f, fd). execution_count fd) (src_functions data))"
    using zero_nonzero [of "map (\<lambda>(f, fd). execution_count fd) (src_functions data)"] by simp
  have z2: "int (length (src_lines data))
              - int (length (filter (\<lambda>c. c = 0) (map snd (src_lines data))))
            = nonzero (map snd (src_lines data))"
    using zero_nonzero [of "map snd (src_lines data)"] by simp
  show ?thesis
    using z1 z2
    unfolding lcovBlock_def foldl_fnStep foldl_daStep dumpBranchCoverageToLcovInfo_eq
    by (simp add: fnEntries_def fndaEntries_def)
qed







lemma delBranch_functions: "src_functions (snd (delBranch i d)) = src_functions d"
  by (simp add: delBranch_def split: sum.splits)

lemma filterBranchPrefix_functions:
  "src_functions (snd (filterBranchPrefix ex inc i line d)) = src_functions d"
proof -
  have a: "src_functions (snd (if c then delBranch i d else (None, d))) = src_functions d" for c d
    by (simp add: delBranch_functions)
  show ?thesis
    unfolding filterBranchPrefix_def
    by (auto simp: delBranch_functions split: prod.splits option.splits if_splits)
       (metis delBranch_functions snd_conv)+
qed

lemma markerStep_functions:
  "src_functions (st_data (markerStep i line st)) = src_functions (st_data st)"
  by (simp add: markerStep_def)

lemma scanLine_functions:
  "src_functions (st_data (snd (scanLine ex inc i line st))) = src_functions (st_data st)"
proof -
  obtain e d where f: "filterBranchPrefix ex inc i line (st_data st) = (e, d)"
    by (cases "filterBranchPrefix ex inc i line (st_data st)")
  with filterBranchPrefix_functions [of ex inc i line "st_data st"]
  have "src_functions d = src_functions (st_data st)" by simp
  with f show ?thesis
    by (cases e) (simp_all add: scanLine_def markerStep_functions)
qed

lemma scanLines_functions:
  "src_functions (st_data (snd (scanLines ex inc i ls st))) = src_functions (st_data st)"
proof (induction ls arbitrary: i st)
  case Nil
  show ?case by simp
next
  case (Cons line ls)
  obtain e st1 where s: "scanLine ex inc i line st = (e, st1)"
    by (cases "scanLine ex inc i line st")
  with scanLine_functions [of ex inc i line st]
  have st1: "src_functions (st_data st1) = src_functions (st_data st)" by simp
  show ?case
  proof (cases e)
    case None
    with s st1 Cons.IH [of "i + 1" st1] show ?thesis by simp
  next
    case (Some err)
    with s st1 show ?thesis by simp
  qed
qed

lemma scanSource_functions:
  "src_functions (snd (scanSource ex inc ls d)) = src_functions d"
proof -
  let ?st0 = "\<lparr>st_start_line = 0, st_end_line = 0, st_data = d\<rparr>"
  obtain e st where s: "scanLines ex inc 1 ls ?st0 = (e, st)"
    by (cases "scanLines ex inc 1 ls ?st0")
  with scanLines_functions [of ex inc 1 ls ?st0]
  have "src_functions (st_data st) = src_functions d" by simp
  with s show ?thesis by (simp add: scanSource_def)
qed

lemma functionsOf_update:
  "map_of S k = Some d \<Longrightarrow> src_functions d' = src_functions d \<Longrightarrow>
   functionsOf (AList.update k d' S) = functionsOf S"
  by (induction S) (auto simp: functionsOf_def split: if_splits)

lemma exclMarkerWorker_functions:
  "functionsOf (snd (exclMarkerWorker fs S chunk ex inc)) = functionsOf S"
proof (induction chunk arbitrary: S)
  case Nil
  show ?case by simp
next
  case (Cons source rest)
  show ?case
  proof (cases "fs source")
    case None
    then show ?thesis by simp
  next
    case (Some ls)
    show ?thesis
    proof (cases "map_of S source")
      case None
      with Some Cons.IH [of S] show ?thesis by simp
    next
      case d: (Some d)
      obtain e d1 where sc: "scanSource ex inc ls d = (e, d1)"
        by (cases "scanSource ex inc ls d")
      with scanSource_functions [of ex inc ls d]
      have "src_functions d1 = src_functions d" by simp
      with d have u: "functionsOf (AList.update source d1 S) = functionsOf S"
        by (rule functionsOf_update)
      show ?thesis
      proof (cases e)
        case None
        with Some d sc u Cons.IH [of "AList.update source d1 S"] show ?thesis by simp
      next
        case (Some err)
        with \<open>fs source = Some ls\<close> d sc u show ?thesis by simp
      qed
    qed
  qed
qed

lemma foldl_workers_functions:
  "functionsOf (foldl (\<lambda>s chunk. snd (exclMarkerWorker fs s chunk ex inc)) S cks)
     = functionsOf S"
  by (induction cks arbitrary: S) (simp_all add: exclMarkerWorker_functions)

lemma scanExclusionMarkers_functions:
  "functionsOf (snd (scanExclusionMarkers fs S jobs ex inc m)) = functionsOf S"
  by (simp add: scanExclusionMarkers_def foldl_workers_functions split: sum.splits)

lemma filter_fnCount_block:
  "filter isFnCount (lcovBlock sf data)
     = [FNF (length (src_functions data)),
        FNH (nonzero (map (\<lambda>(f, fd). execution_count fd) (src_functions data)))]"
proof -
  have a: "filter isFnCount (map (\<lambda>(l, f). FN l f) xs) = []" for xs
    by (induction xs) auto
  have b: "filter isFnCount (map (\<lambda>(c, f). FNDA c f) xs) = []" for xs
    by (induction xs) auto
  have c: "filter isFnCount (map (\<lambda>(l, b, i, c). BRDA l b i c) xs) = []" for xs
    by (induction xs) auto
  have d: "filter isFnCount (map (\<lambda>(l, c). DA l c) xs) = []" for xs
    by (induction xs) auto
  show ?thesis
    unfolding lcovBlock_eq by (simp add: a b c d)
qed

lemma fnCounts_functionsOf:
  "filter isFnCount (dumpToLcovInfo S)
     = concat (map (\<lambda>sf. case map_of (functionsOf S) sf of
                            None \<Rightarrow> []
                          | Some fs \<Rightarrow>
                              [FNF (length fs),
                               FNH (nonzero (map (\<lambda>(f, fd). execution_count fd) fs))])
                   (sort (map fst (functionsOf S))))"
proof -
  have keys: "map fst (functionsOf S) = map fst S"
    by (simp add: functionsOf_def case_prod_beta)
  have look: "map_of (functionsOf S) sf = map_option src_functions (map_of S sf)" for sf
    by (induction S) (auto simp: functionsOf_def)
  show ?thesis
    unfolding dumpToLcovInfo_def keys filter_concat map_map
    by (rule arg_cong [where f = concat], rule map_cong)
       (auto simp: look filter_fnCount_block split: option.splits)
qed

lemma example_scan_g:
  "scanExclusionMarkers (\<lambda>p. Some marked_file) [(''/src/a.c'', record_g)] 1 [] [] 5
     = (None, [(''/src/a.c'',
                record_g\<lparr>src_branches := map (\<lambda>k. (k, [1, 0])) ([5..9] @ [21..25]),
                         src_lines := map (\<lambda>k. (k, 1)) ([5..9] @ [21..25])\<rparr>)])"
  by code_simp

lemma example_fncounts_g:
  "filter isFnCount
     (dumpToLcovInfo [(''/src/a.c'',
        record_g\<lparr>src_branches := map (\<lambda>k. (k, [1, 0])) ([5..9] @ [21..25]),
                 src_lines := map (\<lambda>k. (k, 1)) ([5..9] @ [21..25])\<rparr>)])
     = [FNF 1, FNH 1]"
  by code_simp

text \<open>
  C10. Scanning for exclusion markers changes nothing but the \<open>lines\<close> and \<open>branches\<close>
  dictionaries: after \<open>scanExclusionMarkers\<close> the report has the same source paths in the
  same order, each with the \<open>functions\<close> dictionary it had before, whatever the files
  contain and whether or not a worker raised; the same holds for one worker and for the
  scan of one source. So the \<open>FNF\<close> and \<open>FNH\<close> lines of the LCOV output are the same for
  the scanned report as for the unscanned one. A function that starts on line 12, inside
  an excluded range from line 10 to line 20, is still there after the scan and is still
  counted by \<open>FNF\<close> and \<open>FNH\<close>.
\<close>

theorem scan_keeps_functions:
  "functionsOf (snd (scanExclusionMarkers fs S jobs ex inc m)) = functionsOf S
   \<and> functionsOf (snd (exclMarkerWorker fs S chunk ex inc)) = functionsOf S
   \<and> src_functions (snd (scanSource ex inc ls d)) = src_functions d
   \<and> filter isFnCount (dumpToLcovInfo (snd (scanExclusionMarkers fs S jobs ex inc m)))
       = filter isFnCount (dumpToLcovInfo S)
   \<and> scanExclusionMarkers (\<lambda>p. Some marked_file) [(''/src/a.c'', record_g)] 1 [] [] 5
       = (None, [(''/src/a.c'',
                  record_g\<lparr>src_branches := map (\<lambda>k. (k, [1, 0])) ([5..9] @ [21..25]),
                           src_lines := map (\<lambda>k. (k, 1)) ([5..9] @ [21..25])\<rparr>)])
   \<and> filter isFnCount
        (dumpToLcovInfo
           (snd (scanExclusionMarkers (\<lambda>p. Some marked_file) [(''/src/a.c'', record_g)]
                   1 [] [] 5)))
       = [FNF 1, FNH 1]"
proof (intro conjI)
  show "functionsOf (snd (scanExclusionMarkers fs S jobs ex inc m)) = functionsOf S"
    by (rule scanExclusionMarkers_functions)
  show "functionsOf (snd (exclMarkerWorker fs S chunk ex inc)) = functionsOf S"
    by (rule exclMarkerWorker_functions)
  show "src_functions (snd (scanSource ex inc ls d)) = src_functions d"
    by (rule scanSource_functions)
  show "filter isFnCount (dumpToLcovInfo (snd (scanExclusionMarkers fs S jobs ex inc m)))
       = filter isFnCount (dumpToLcovInfo S)"
    unfolding fnCounts_functionsOf scanExclusionMarkers_functions ..
  show "scanExclusionMarkers (\<lambda>p. Some marked_file) [(''/src/a.c'', record_g)] 1 [] [] 5
       = (None, [(''/src/a.c'',
                  record_g\<lparr>src_branches := map (\<lambda>k. (k, [1, 0])) ([5..9] @ [21..25]),
                           src_lines := map (\<lambda>k. (k, 1)) ([5..9] @ [21..25])\<rparr>)])"
    by (rule example_scan_g)
  show "filter isFnCount
        (dumpToLcovInfo
           (snd (scanExclusionMarkers (\<lambda>p. Some marked_file) [(''/src/a.c'', record_g)]
                   1 [] [] 5)))
       = [FNF 1, FNH 1]"
    unfolding example_scan_g snd_conv by (rule example_fncounts_g)
qed

section \<open>Properties of the canonical JSON output\<close>

lemma below_ten:
  "d < 10 \<Longrightarrow> d = 0 \<or> d = 1 \<or> d = 2 \<or> d = 3 \<or> d = 4 \<or> d = 5 \<or> d = 6 \<or> d = 7 \<or> d = 8
              \<or> d = (9 :: nat)"
  by arith

lemma digit_val_char: "d < 10 \<Longrightarrow> digit_val (digit_char d) = d"
  using below_ten [of d] by (auto simp: digit_char_def digit_val_def)

lemma digit_char_not_minus: "d < 10 \<Longrightarrow> digit_char d \<noteq> CHR ''-''"
  using below_ten [of d] by (auto simp: digit_char_def)

lemma parse_nat_snoc: "parse_nat (s @ [c]) = 10 * parse_nat s + digit_val c"
  by (simp add: parse_nat_def)

lemma parse_str_nat: "parse_nat (str_nat n) = n"
proof (induction n rule: str_nat.induct)
  case (1 n)
  show ?case
  proof (cases "n < 10")
    case True
    then show ?thesis
      by (subst str_nat.simps) (simp add: parse_nat_def digit_val_char)
  next
    case False
    with 1 have "parse_nat (str_nat (n div 10)) = n div 10" by simp
    with False show ?thesis
      by (subst str_nat.simps) (simp add: parse_nat_snoc digit_val_char)
  qed
qed

lemma str_nat_inj: "str_nat a = str_nat b \<Longrightarrow> a = b"
  by (metis parse_str_nat)

lemma str_nat_no_minus: "CHR ''-'' \<notin> set (str_nat n)"
proof (induction n rule: str_nat.induct)
  case (1 n)
  show ?case
  proof (cases "n < 10")
    case True
    then show ?thesis
      by (subst str_nat.simps) (simp add: digit_char_not_minus [symmetric])
  next
    case False
    with 1 have "CHR ''-'' \<notin> set (str_nat (n div 10))" by simp
    moreover have "digit_char (n mod 10) \<noteq> CHR ''-''"
      by (rule digit_char_not_minus) simp
    ultimately show ?thesis using False
      by (subst str_nat.simps) auto
  qed
qed

lemma str_nat_not_minus_Cons: "str_nat n \<noteq> CHR ''-'' # s"
  using str_nat_no_minus [of n] by (metis list.set_intros(1))

lemma str_int_inj: "str_int a = str_int b \<Longrightarrow> a = b"
proof -
  assume eq: "str_int a = str_int b"
  show "a = b"
  proof (cases "a < 0")
    case a: True
    show ?thesis
    proof (cases "b < 0")
      case True
      with a eq have "str_nat (nat (- a)) = str_nat (nat (- b))" by (simp add: str_int_def)
      then have "nat (- a) = nat (- b)" by (rule str_nat_inj)
      with a True show ?thesis by simp
    next
      case False
      with a eq have "str_nat (nat b) = CHR ''-'' # str_nat (nat (- a))"
        by (simp add: str_int_def)
      then show ?thesis using str_nat_not_minus_Cons by blast
    qed
  next
    case a: False
    show ?thesis
    proof (cases "b < 0")
      case True
      with a eq have "str_nat (nat a) = CHR ''-'' # str_nat (nat (- b))"
        by (simp add: str_int_def)
      then show ?thesis using str_nat_not_minus_Cons by blast
    next
      case False
      with a eq have "str_nat (nat a) = str_nat (nat b)" by (simp add: str_int_def)
      then have "nat a = nat b" by (rule str_nat_inj)
      with a False show ?thesis by simp
    qed
  qed
qed

lemma inj_str_int: "inj str_int"
  by (rule injI) (rule str_int_inj)

lemma update_fresh:
  "k \<notin> set (map fst d) \<Longrightarrow> AList.update k v d = d @ [(k, v)]"
  by (induction d) auto

lemma foldl_update_distinct:
  "distinct (map fst (d @ kvs)) \<Longrightarrow>
   foldl (\<lambda>d kv. AList.update (fst kv) (snd kv) d) d kvs = d @ kvs"
proof (induction kvs arbitrary: d)
  case Nil
  show ?case by simp
next
  case (Cons kv kvs)
  from Cons.prems have fresh: "fst kv \<notin> set (map fst d)" by auto
  from Cons.prems have "distinct (map fst ((d @ [kv]) @ kvs))" by simp
  then have "foldl (\<lambda>d kv. AList.update (fst kv) (snd kv) d) (d @ [kv]) kvs = (d @ [kv]) @ kvs"
    by (rule Cons.IH)
  with fresh show ?case
    by (simp add: update_fresh [of "fst kv" d "snd kv"])
qed

lemma dict_of_pairs_distinct: "distinct (map fst kvs) \<Longrightarrow> dict_of_pairs kvs = kvs"
  using foldl_update_distinct [of "[]" kvs] by (simp add: dict_of_pairs_def)

lemma roundtrip_dict:
  assumes "distinct (map (\<lambda>kv. key_str (fst kv)) kvs)"
  shows "json_decode (json_encode (PDict kvs))
           = PDict (map (\<lambda>kv. (KStr (key_str (fst kv)), json_decode (json_encode (snd kv)))) kvs)"
proof -
  let ?xs = "map (map_prod KStr json_decode) (map (map_prod key_str json_encode) kvs)"
  have xs: "?xs = map (\<lambda>kv. (KStr (key_str (fst kv)), json_decode (json_encode (snd kv)))) kvs"
    by (simp add: map_prod_def case_prod_beta)
  have e: "map fst ?xs = map KStr (map (\<lambda>kv. key_str (fst kv)) kvs)"
    by (simp add: case_prod_beta)
  have d: "distinct (map KStr (map (\<lambda>kv. key_str (fst kv)) kvs))"
    using assms by (simp only: distinct_map) (auto simp: inj_on_def)
  have "distinct (map fst ?xs)" unfolding e by (rule d)
  then have "dict_of_pairs ?xs = ?xs" by (rule dict_of_pairs_distinct)
  then show ?thesis by (simp only: json_encode.simps json_decode.simps xs)
qed

lemma roundtrip_counts: "json_decode (json_encode (PList (map PInt cs))) = PList (map PInt cs)"
  by (simp add: comp_def)

lemma roundtrip_fdata: "json_decode (json_encode (fdata_value fd)) = fdata_value fd"
  unfolding fdata_value_def by (subst roundtrip_dict) simp_all

lemma roundtrip_functions:
  assumes "distinct (map fst fs)"
  shows "json_decode (json_encode (PDict (map (\<lambda>(f, fd). (KStr f, fdata_value fd)) fs)))
           = PDict (map (\<lambda>(f, fd). (KStr f, fdata_value fd)) fs)"
proof -
  have "distinct (map (\<lambda>kv. key_str (fst kv)) (map (\<lambda>(f, fd). (KStr f, fdata_value fd)) fs))"
    using assms by (simp add: comp_def case_prod_beta)
  then show ?thesis
    by (subst roundtrip_dict) (simp_all add: comp_def case_prod_beta roundtrip_fdata)
qed

lemma distinct_str_keys:
  "distinct (map fst xs) \<Longrightarrow> distinct (map (\<lambda>x. str_int (fst x)) xs)"
proof -
  assume "distinct (map fst xs)"
  then have "distinct (map str_int (map fst xs))"
    by (simp only: distinct_map) (auto intro: inj_onI dest: str_int_inj)
  then show ?thesis by (simp add: comp_def)
qed

lemma roundtrip_branches:
  assumes "distinct (map fst bs)"
  shows "json_decode (json_encode (PDict (map (\<lambda>(l, cs). (KInt l, PList (map PInt cs))) bs)))
           = PDict (map (\<lambda>(l, cs). (KStr (str_int l), PList (map PInt cs))) bs)"
proof -
  have "distinct (map (\<lambda>kv. key_str (fst kv)) (map (\<lambda>(l, cs). (KInt l, PList (map PInt cs))) bs))"
    using distinct_str_keys [OF assms] by (simp add: comp_def case_prod_beta)
  then show ?thesis
    by (subst roundtrip_dict) (simp_all add: comp_def case_prod_beta)
qed

lemma roundtrip_lines:
  assumes "distinct (map fst ls)"
  shows "json_decode (json_encode (PDict (map (\<lambda>(l, c). (KInt l, PInt c)) ls)))
           = PDict (map (\<lambda>(l, c). (KStr (str_int l), PInt c)) ls)"
proof -
  have "distinct (map (\<lambda>kv. key_str (fst kv)) (map (\<lambda>(l, c). (KInt l, PInt c)) ls))"
    using distinct_str_keys [OF assms] by (simp add: comp_def case_prod_beta)
  then show ?thesis
    by (subst roundtrip_dict) (simp_all add: comp_def case_prod_beta)
qed

lemma roundtrip_source:
  assumes "wf_source data"
  shows "json_decode (json_encode (source_value KInt data)) = source_value str_key data"
proof -
  from assms have f: "distinct (map fst (src_functions data))"
    and b: "distinct (map fst (src_branches data))"
    and l: "distinct (map fst (src_lines data))"
    by (simp_all add: wf_source_def)
  show ?thesis
    unfolding source_value_def
    by (subst roundtrip_dict)
       (simp_all add: roundtrip_functions [OF f] roundtrip_branches [OF b] roundtrip_lines [OF l]
          str_key_def del: json_encode.simps json_decode.simps)
qed

lemma roundtrip_sources:
  assumes "wf_report S"
  shows "json_decode (json_encode (PDict (map (\<lambda>(sf, data). (KStr sf, source_value KInt data)) S)))
           = PDict (map (\<lambda>(sf, data). (KStr sf, source_value str_key data)) S)"
proof -
  from assms have d: "distinct (map fst S)" and w: "\<forall>x \<in> set S. wf_source (snd x)"
    by (auto simp: wf_report_def list_all_iff)
  have k: "distinct (map (\<lambda>kv. key_str (fst kv))
                      (map (\<lambda>(sf, data). (KStr sf, source_value KInt data)) S))"
    using d by (simp add: comp_def case_prod_beta)
  have "map (\<lambda>kv. (KStr (key_str (fst kv)), json_decode (json_encode (snd kv))))
            (map (\<lambda>(sf, data). (KStr sf, source_value KInt data)) S)
          = map (\<lambda>(sf, data). (KStr sf, source_value str_key data)) S"
    using w by (auto simp: roundtrip_source)
  then show ?thesis
    by (simp only: roundtrip_dict [OF k])
qed

lemma roundtrip_report:
  assumes "wf_report S"
  shows "json_decode (dumpToJson S) = report_value str_key S"
  unfolding dumpToJson_def report_value_def
  by (subst roundtrip_dict)
     (simp_all add: roundtrip_sources [OF assms] del: json_encode.simps json_decode.simps)

lemma report_value_eq_iff:
  "report_value KInt S = report_value str_key S \<longleftrightarrow> no_line_entries S"
proof -
  have src: "source_value KInt data = source_value str_key data
               \<longleftrightarrow> src_branches data = [] \<and> src_lines data = []" for data
  proof -
    have b: "map (\<lambda>(l, cs). (KInt l, PList (map PInt cs))) bs
               = map (\<lambda>(l, cs). (str_key l, PList (map PInt cs))) bs \<longleftrightarrow> bs = []"
      for bs :: branches_dict
      by (cases bs) (auto simp: str_key_def)
    have l: "map (\<lambda>(l, c). (KInt l, PInt c)) ls = map (\<lambda>(l, c). (str_key l, PInt c)) ls
               \<longleftrightarrow> ls = []"
      for ls :: lines_dict
      by (cases ls) (auto simp: str_key_def)
    show ?thesis by (simp add: source_value_def b l del: map_eq_conv)
  qed
  have "map (\<lambda>(sf, data). (KStr sf, source_value KInt data)) S
          = map (\<lambda>(sf, data). (KStr sf, source_value str_key data)) S
        \<longleftrightarrow> (\<forall>x \<in> set S. src_branches (snd x) = [] \<and> src_lines (snd x) = [])"
    by (auto simp: src)
  then show ?thesis
    by (simp add: report_value_def no_line_entries_def list_all_iff case_prod_beta)
qed

lemma distinct_distillFunction:
  "distinct (map fst fs) \<Longrightarrow> distinct (map fst (distillFunction fr fs))"
  by (simp add: distillFunction_def Let_def distinct_update split: option.splits)

lemma distinct_distillFunctions:
  "distinct (map fst fs) \<Longrightarrow>
   distinct (map fst (foldl (\<lambda>fs function. distillFunction function fs) fs frs))"
  by (induction frs arbitrary: fs) (simp_all add: distinct_distillFunction)

lemma distinct_branchStep:
  "distinct (map fst brs) \<Longrightarrow> distinct (map fst (branchStep lnum glen i b brs))"
  by (simp add: branchStep_def Let_def distinct_update)

lemma distinct_branchLoop:
  "distinct (map fst brs) \<Longrightarrow> distinct (map fst (branchLoop lnum glen i bs brs))"
  by (induction bs arbitrary: i brs) (simp_all add: distinct_branchStep)

lemma distinct_distillLine:
  assumes "distinct (map fst ls)" "distinct (map fst brs)"
  shows "distinct (map fst (fst (distillLine lr ls brs inc)))
         \<and> distinct (map fst (snd (distillLine lr ls brs inc)))"
  using assms
  by (simp add: distillLine_def Let_def distinct_update distinct_branchLoop split: option.splits)

lemma distinct_distillLines:
  assumes "distinct (map fst ls)" "distinct (map fst brs)"
  shows "distinct (map fst (fst (foldl (\<lambda>(ls, bs) line. distillLine line ls bs inc)
                                   (ls, brs) lrs)))
         \<and> distinct (map fst (snd (foldl (\<lambda>(ls, bs) line. distillLine line ls bs inc)
                                     (ls, brs) lrs)))"
  using assms
proof (induction lrs arbitrary: ls brs)
  case Nil
  then show ?case by simp
next
  case (Cons lr lrs)
  obtain ls' brs' where step: "distillLine lr ls brs inc = (ls', brs')"
    by (cases "distillLine lr ls brs inc")
  with distinct_distillLine [OF Cons.prems, of lr inc]
  have "distinct (map fst ls')" "distinct (map fst brs')" by simp_all
  then show ?case using Cons.IH [of ls' brs'] by (simp add: step)
qed

lemma wf_report_iff:
  "wf_report S \<longleftrightarrow>
     distinct (map fst S) \<and> (\<forall>sf data. map_of S sf = Some data \<longrightarrow> wf_source data)"
proof
  assume w: "wf_report S"
  then have d: "distinct (map fst S)" by (simp add: wf_report_def)
  have "wf_source data" if "map_of S sf = Some data" for sf data
  proof -
    from that have "(sf, data) \<in> set S" by (rule map_of_SomeD)
    with w show ?thesis by (auto simp: wf_report_def list_all_iff)
  qed
  with d show "distinct (map fst S) \<and> (\<forall>sf data. map_of S sf = Some data \<longrightarrow> wf_source data)"
    by blast
next
  assume a: "distinct (map fst S) \<and> (\<forall>sf data. map_of S sf = Some data \<longrightarrow> wf_source data)"
  then have d: "distinct (map fst S)" by blast
  have "wf_source (snd x)" if "x \<in> set S" for x
  proof -
    from that have "(fst x, snd x) \<in> set S" by simp
    with d have "map_of S (fst x) = Some (snd x)" by (simp only: map_of_eq_Some_iff)
    with a show ?thesis by blast
  qed
  with d show "wf_report S"
    by (auto simp: wf_report_def list_all_iff)
qed

lemma wf_distillSource:
  assumes "wf_report S"
  shows "wf_report (distillSource r S inc)"
proof -
  from assms have d: "distinct (map fst S)"
    and w: "\<And>sf data. map_of S sf = Some data \<Longrightarrow> wf_source data"
    by (simp_all add: wf_report_iff)
  let ?empty = "\<lparr>src_functions = [], src_branches = [], src_lines = []\<rparr>"
  let ?d0 = "case map_of S (file_abs r) of None \<Rightarrow> ?empty | Some data \<Rightarrow> data"
  have w0: "wf_source ?d0"
    by (cases "map_of S (file_abs r)") (simp_all add: wf_source_def w [unfolded wf_source_def])
  have dist: "distinct (map fst (distillSource r S inc))"
    using d by (simp add: distillSource_def Let_def distinct_update)
  have "wf_source data" if m: "map_of (distillSource r S inc) sf = Some data" for sf data
  proof (cases "sf = file_abs r")
    case True
    with m have data: "data = \<lparr>src_functions =
          foldl (\<lambda>fs function. distillFunction function fs) (src_functions ?d0) (raw_functions r),
        src_branches = snd (foldl (\<lambda>(ls, bs) line. distillLine line ls bs inc)
                              (src_lines ?d0, src_branches ?d0) (raw_lines r)),
        src_lines = fst (foldl (\<lambda>(ls, bs) line. distillLine line ls bs inc)
                           (src_lines ?d0, src_branches ?d0) (raw_lines r))\<rparr>"
      by (simp add: map_of_distillSource Let_def)
    from w0 have "distinct (map fst (src_functions ?d0))" "distinct (map fst (src_lines ?d0))"
      "distinct (map fst (src_branches ?d0))"
      by (simp_all add: wf_source_def)
    then show ?thesis
      unfolding data wf_source_def
      using distinct_distillFunctions [of "src_functions ?d0" "raw_functions r"]
        distinct_distillLines [of "src_lines ?d0" "src_branches ?d0" inc "raw_lines r"]
      by simp
  next
    case False
    with m have "map_of S sf = Some data" by (simp add: map_of_distillSource)
    then show ?thesis by (rule w)
  qed
  with dist show ?thesis by (simp add: wf_report_iff)
qed

lemma wf_distill_foldl:
  "wf_report S \<Longrightarrow>
   wf_report (foldl (\<lambda>sources source. distillSource source sources inc) S rs)"
  by (induction rs arbitrary: S) (simp_all add: wf_distillSource)

lemma wf_distillReport: "wf_report (distillReport rs inc)"
proof -
  have "wf_report []" by (simp add: wf_report_def)
  then show ?thesis unfolding distillReport_def by (rule wf_distill_foldl)
qed

lemma wf_delBranch: "wf_source d \<Longrightarrow> wf_source (snd (delBranch i d))"
  by (simp add: delBranch_def dict_del_def wf_source_def distinct_delete)

lemma wf_filterBranchPrefix:
  assumes "wf_source d"
  shows "wf_source (snd (filterBranchPrefix ex inc i line d))"
proof -
  obtain e1 d1 where a: "delBranch i d = (e1, d1)" by (cases "delBranch i d")
  with wf_delBranch [OF assms, of i] have w1: "wf_source d1" by simp
  obtain e2 d2 where b: "delBranch i d1 = (e2, d2)" by (cases "delBranch i d1")
  with wf_delBranch [OF w1, of i] have w2: "wf_source d2" by simp
  show ?thesis
    unfolding filterBranchPrefix_def using assms w1 w2
    by (cases e1; cases e2) (simp_all add: a b)
qed

lemma distinct_delIfPresent: "distinct (map fst d) \<Longrightarrow> distinct (map fst (delIfPresent i d))"
  by (simp add: delIfPresent_def distinct_delete)

lemma distinct_foldl_delete:
  "distinct (map fst d) \<Longrightarrow>
   distinct (map fst (foldl (\<lambda>d k. if P k then AList.delete k d else d) d ks))"
  by (induction ks arbitrary: d) (simp_all add: distinct_delete)

lemma distinct_delRange: "distinct (map fst d) \<Longrightarrow> distinct (map fst (delRange s e d))"
  unfolding delRange_def by (rule distinct_foldl_delete)

lemma wf_markerStep: "wf_source (st_data st) \<Longrightarrow> wf_source (st_data (markerStep i line st))"
  by (simp add: markerStep_def wf_source_def distinct_delIfPresent distinct_delRange)

lemma wf_scanLine:
  assumes "wf_source (st_data st)"
  shows "wf_source (st_data (snd (scanLine ex inc i line st)))"
proof -
  obtain e d where f: "filterBranchPrefix ex inc i line (st_data st) = (e, d)"
    by (cases "filterBranchPrefix ex inc i line (st_data st)")
  with wf_filterBranchPrefix [OF assms, of ex inc i line] have "wf_source d" by simp
  with f show ?thesis
    by (cases e) (simp_all add: scanLine_def wf_markerStep)
qed

lemma wf_scanLines:
  "wf_source (st_data st) \<Longrightarrow> wf_source (st_data (snd (scanLines ex inc i ls st)))"
proof (induction ls arbitrary: i st)
  case Nil
  then show ?case by simp
next
  case (Cons line ls)
  obtain e st1 where s: "scanLine ex inc i line st = (e, st1)"
    by (cases "scanLine ex inc i line st")
  with wf_scanLine [OF Cons.prems, of ex inc i line] have st1: "wf_source (st_data st1)"
    by simp
  show ?case
  proof (cases e)
    case None
    with s Cons.IH [OF st1, of "i + 1"] show ?thesis by simp
  next
    case (Some err)
    with s st1 show ?thesis by simp
  qed
qed

lemma wf_scanSource: "wf_source d \<Longrightarrow> wf_source (snd (scanSource ex inc ls d))"
proof -
  assume w: "wf_source d"
  let ?st0 = "\<lparr>st_start_line = 0, st_end_line = 0, st_data = d\<rparr>"
  obtain e st where s: "scanLines ex inc 1 ls ?st0 = (e, st)"
    by (cases "scanLines ex inc 1 ls ?st0")
  from w have "wf_source (st_data ?st0)" by simp
  from wf_scanLines [OF this, of ex inc 1 ls] s have "wf_source (st_data st)" by simp
  with s show ?thesis by (simp add: scanSource_def)
qed

lemma wf_update:
  assumes "wf_report S" "wf_source d"
  shows "wf_report (AList.update k d S)"
proof -
  from assms(1) have dist: "distinct (map fst S)"
    and w: "\<And>sf data. map_of S sf = Some data \<Longrightarrow> wf_source data"
    by (simp_all add: wf_report_iff)
  have "wf_source data" if "map_of (AList.update k d S) sf = Some data" for sf data
    using that assms(2) w by (cases "sf = k") (simp_all add: update_conv')
  with dist show ?thesis by (simp add: wf_report_iff distinct_update)
qed

lemma wf_exclMarkerWorker:
  "wf_report S \<Longrightarrow> wf_report (snd (exclMarkerWorker fs S chunk ex inc))"
proof (induction chunk arbitrary: S)
  case Nil
  then show ?case by simp
next
  case (Cons source rest)
  show ?case
  proof (cases "fs source")
    case None
    with Cons.prems show ?thesis by simp
  next
    case (Some ls)
    show ?thesis
    proof (cases "map_of S source")
      case None
      with Some Cons.prems Cons.IH [of S] show ?thesis by simp
    next
      case d: (Some d)
      with Cons.prems have wd: "wf_source d" by (simp add: wf_report_iff)
      obtain e d1 where sc: "scanSource ex inc ls d = (e, d1)"
        by (cases "scanSource ex inc ls d")
      with wf_scanSource [OF wd, of ex inc ls] have "wf_source d1" by simp
      with Cons.prems have u: "wf_report (AList.update source d1 S)" by (rule wf_update)
      show ?thesis
      proof (cases e)
        case None
        with Some d sc Cons.IH [OF u] show ?thesis by simp
      next
        case (Some err)
        with \<open>fs source = Some ls\<close> d sc u show ?thesis by simp
      qed
    qed
  qed
qed

lemma wf_foldl_workers:
  "wf_report S \<Longrightarrow>
   wf_report (foldl (\<lambda>s chunk. snd (exclMarkerWorker fs s chunk ex inc)) S cks)"
  by (induction cks arbitrary: S) (simp_all add: wf_exclMarkerWorker)

lemma wf_scanExclusionMarkers:
  "wf_report S \<Longrightarrow> wf_report (snd (scanExclusionMarkers fs S jobs ex inc m))"
  by (simp add: scanExclusionMarkers_def wf_foldl_workers split: sum.splits)

lemma str_key_eq_iff: "str_key a = str_key b \<longleftrightarrow> a = b"
  by (auto simp: str_key_def dest: str_int_inj)

lemma example_one_line_distilled: "distillReport [one_line_raw] inc = one_line_report"
  by (cases inc) (simp_all add: distillReport_def distillSource_def distillFunction_def
      distillLine_def filterExceptionalBranches_def branchStep_def one_line_raw_def
      one_line_report_def Let_def)

lemma example_one_line_reparsed:
  "json_decode (dumpToJson one_line_report)
     = PDict [(KStr ''sources'',
         PDict [(KStr ''/src/a.c'',
           PDict [(KStr ''functions'',
                     PDict [(KStr ''f'',
                       PDict [(KStr ''start_line'', PInt 4),
                              (KStr ''execution_count'', PInt 2)])]),
                  (KStr ''branches'', PDict [(KStr ''5'', PList [PInt 1, PInt 0])]),
                  (KStr ''lines'', PDict [(KStr ''5'', PInt 3)])])])]"
  by code_simp

lemma example_one_line_memory:
  "report_value KInt one_line_report
     = PDict [(KStr ''sources'',
         PDict [(KStr ''/src/a.c'',
           PDict [(KStr ''functions'',
                     PDict [(KStr ''f'',
                       PDict [(KStr ''start_line'', PInt 4),
                              (KStr ''execution_count'', PInt 2)])]),
                  (KStr ''branches'', PDict [(KInt 5, PList [PInt 1, PInt 0])]),
                  (KStr ''lines'', PDict [(KInt 5, PInt 3)])])])]"
  by code_simp

text \<open>
  C9, as stated, fails: the report distilled from one raw record with one line entry has
  its \<open>lines\<close> and \<open>branches\<close> dictionaries keyed by the integer 5; the JSON document has the
  key \<open>"5"\<close>, and re-parsing it gives dictionaries keyed by the string \<open>"5"\<close>, which is not
  the report that was serialized.
\<close>

theorem json_keys_become_strings:
  "distillReport [one_line_raw] False = one_line_report
   \<and> json_decode (dumpToJson one_line_report) \<noteq> report_value KInt one_line_report"
  unfolding example_one_line_reparsed example_one_line_memory
  by (simp add: example_one_line_distilled)

text \<open>
  C9, amended. A report produced by distillation, also after the scan for exclusion
  markers, has distinct keys in every dictionary. Serializing such a report to the
  canonical JSON document and re-parsing the document yields the same structure with the
  same values in the same order, except that every integer key of the \<open>lines\<close> and
  \<open>branches\<close> dictionaries has become its decimal string; different integers give
  different strings, so no two entries fall together. The \<open>functions\<close> dictionaries, keyed
  by strings, come back as they were. The re-parsed report equals the serialized one
  exactly when no source has a line entry or a branch entry.
\<close>

theorem json_roundtrip_string_keys:
  "wf_report (distillReport rs inc)
   \<and> wf_report (snd (scanExclusionMarkers fs (distillReport rs inc) jobs ex incl m))
   \<and> json_decode (dumpToJson (distillReport rs inc))
       = report_value str_key (distillReport rs inc)
   \<and> (wf_report S \<longrightarrow> json_decode (dumpToJson S) = report_value str_key S)
   \<and> (wf_report S \<longrightarrow>
        (json_decode (dumpToJson S) = report_value KInt S \<longleftrightarrow> no_line_entries S))
   \<and> (str_key a = str_key b \<longleftrightarrow> a = b)
   \<and> str_key l = KStr (str_int l)
   \<and> str_int 5 = ''5'' \<and> str_int (- 120) = ''-120''
   \<and> json_decode (dumpToJson one_line_report)
       = PDict [(KStr ''sources'',
           PDict [(KStr ''/src/a.c'',
             PDict [(KStr ''functions'',
                       PDict [(KStr ''f'',
                         PDict [(KStr ''start_line'', PInt 4),
                                (KStr ''execution_count'', PInt 2)])]),
                    (KStr ''branches'', PDict [(KStr ''5'', PList [PInt 1, PInt 0])]),
                    (KStr ''lines'', PDict [(KStr ''5'', PInt 3)])])])]"
proof (intro conjI impI)
  show w: "wf_report (distillReport rs inc)" by (rule wf_distillReport)
  show "wf_report (snd (scanExclusionMarkers fs (distillReport rs inc) jobs ex incl m))"
    using w by (rule wf_scanExclusionMarkers)
  show "json_decode (dumpToJson (distillReport rs inc))
       = report_value str_key (distillReport rs inc)"
    using w by (rule roundtrip_report)
  show "json_decode (dumpToJson S) = report_value str_key S" if "wf_report S"
    using that by (rule roundtrip_report)
  show "json_decode (dumpToJson S) = report_value KInt S \<longleftrightarrow> no_line_entries S"
    if "wf_report S"
    unfolding roundtrip_report [OF that] using report_value_eq_iff [of S] by auto
  show "str_key a = str_key b \<longleftrightarrow> a = b" by (rule str_key_eq_iff)
  show "str_key l = KStr (str_int l)" by (rule str_key_def)
  show "str_int 5 = ''5''" by code_simp
  show "str_int (- 120) = ''-120''" by code_simp
  show "json_decode (dumpToJson one_line_report)
       = PDict [(KStr ''sources'',
           PDict [(KStr ''/src/a.c'',
             PDict [(KStr ''functions'',
                       PDict [(KStr ''f'',
                         PDict [(KStr ''start_line'', PInt 4),
                                (KStr ''execution_count'', PInt 2)])]),
                    (KStr ''branches'', PDict [(KStr ''5'', PList [PInt 1, PInt 0])]),
                    (KStr ''lines'', PDict [(KStr ''5'', PInt 3)])])])]"
    by (rule example_one_line_reparsed)
qed

theorem json_roundtrip_string_keys_witness:
  "wf_report one_line_report
   \<and> json_decode (dumpToJson one_line_report) = report_value str_key one_line_report
   \<and> \<not> no_line_entries one_line_report
   \<and> json_decode (dumpToJson one_line_report) \<noteq> report_value KInt one_line_report
   \<and> wf_report [(''/src/b.c'', one_function)]
   \<and> no_line_entries [(''/src/b.c'', one_function)]
   \<and> json_decode (dumpToJson [(''/src/b.c'', one_function)])
       = report_value KInt [(''/src/b.c'', one_function)]"
proof -
  let ?B = "[(''/src/b.c'', one_function)]"
  have h1: "wf_report one_line_report"
    by (simp add: wf_report_def wf_source_def one_line_report_def)
  have h2: "\<not> no_line_entries one_line_report"
    by (simp add: no_line_entries_def one_line_report_def)
  have h3: "wf_report ?B" by (simp add: wf_report_def wf_source_def one_function_def)
  have h4: "no_line_entries ?B" by (simp add: no_line_entries_def one_function_def)
  note t1 = json_roundtrip_string_keys [where S = one_line_report]
  note t2 = json_roundtrip_string_keys [where S = ?B]
  from t1 h1
  have c1: "json_decode (dumpToJson one_line_report) = report_value str_key one_line_report"
    by blast
  from t1 h1 h2
  have c2: "json_decode (dumpToJson one_line_report) \<noteq> report_value KInt one_line_report"
    by blast
  from t2 h3 h4 have c3: "json_decode (dumpToJson ?B) = report_value KInt ?B" by blast
  show ?thesis
    by (intro conjI) (fact h1 h2 h3 h4 c1 c2 c3)+
qed

end
